theory Spec2Isabelle
  imports Main "HOL-Library.Sublist"
begin

text \<open>
  A model of \<^verbatim>\<open>src/services/geminiService.ts\<close>: the rotation of API keys around a
  wrapped operation (\<^verbatim>\<open>getClient\<close>, \<^verbatim>\<open>rotateKey\<close>, \<^verbatim>\<open>is429Error\<close>,
  \<^verbatim>\<open>withKeyRotation\<close>), the streaming loop of the operations that forward chunks to
  a sink, and the post-processing of \<^verbatim>\<open>generateLegalFlowchart\<close>,
  \<^verbatim>\<open>analyzeJudgment\<close> and \<^verbatim>\<open>aiSearchJudgments\<close>. A promise is modelled by its
  outcome: \<open>Inr\<close> the value it resolves with, \<open>Inl\<close> the value it rejects with. The
  inference provider is a parameter. Prompts are not modelled: they are part of
  the request the provider answers, and nothing below depends on their text. The
  interleaving of several calls on the shared cursor is not modelled either: every
  statement is about one call that runs alone.
\<close>

section \<open>Strings\<close>

text \<open>
  A JavaScript string is modelled as a \<^typ>\<open>string\<close>: a list of code units, here
  restricted to the code units below 256. \<open>str_includes s sub\<close> is
  \<^verbatim>\<open>s.includes(sub)\<close>: some suffix of \<open>s\<close> starts with \<open>sub\<close>.
\<close>

fun str_includes :: "string \<Rightarrow> string \<Rightarrow> bool" where
  "str_includes [] sub = (sub = [])"
| "str_includes (c # cs) sub = (prefix sub (c # cs) \<or> str_includes cs sub)"

section \<open>Errors\<close>

text \<open>
  A thrown value, with the five properties the service reads from it
  (\<^verbatim>\<open>err?.name\<close>, \<^verbatim>\<open>err?.message\<close>, \<^verbatim>\<open>err?.status\<close>, \<^verbatim>\<open>err?.code\<close>,
  \<^verbatim>\<open>err?.httpStatusCode\<close>). A property that is absent (or, for the three numeric
  ones, not a number) is \<open>None\<close>; a message that is present is a string.
\<close>

record jsError =
  name :: "string option"
  message :: "string option"
  status :: "int option"
  code :: "int option"
  httpStatusCode :: "int option"

text \<open>\<^verbatim>\<open>new Error(msg)\<close>\<close>

definition Error :: "string \<Rightarrow> jsError" where
  "Error msg =
     \<lparr>name = Some ''Error'', message = Some msg, status = None, code = None,
      httpStatusCode = None\<rparr>"

text \<open>The error thrown by \<^verbatim>\<open>getClient\<close> when no key is configured.\<close>

definition apiKeyMissing :: jsError where
  "apiKeyMissing = Error ''API_KEY is missing. Please set it in the environment.''"

text \<open>The error thrown after the loop of \<^verbatim>\<open>withKeyRotation\<close>.\<close>

definition allKeysExhausted :: jsError where
  "allKeysExhausted =
     Error ''All API keys have hit their rate limit. Please wait a minute and try again.''"

text \<open>\<^verbatim>\<open>new DOMException('Aborted', 'AbortError')\<close>; its legacy code is 20.\<close>

definition abortError :: jsError where
  "abortError =
     \<lparr>name = Some ''AbortError'', message = Some ''Aborted'', status = None, code = Some 20,
      httpStatusCode = None\<rparr>"

definition is429Error :: "jsError \<Rightarrow> bool" where
  "is429Error err =
     ((case message err of None \<Rightarrow> False | Some m \<Rightarrow> str_includes m ''429'') \<or>
      (case message err of None \<Rightarrow> False | Some m \<Rightarrow> str_includes m ''RESOURCE_EXHAUSTED'') \<or>
      status err = Some 429 \<or>
      code err = Some 429 \<or>
      httpStatusCode err = Some 429)"

section \<open>The credential pool and its cursor\<close>

text \<open>
  \<open>API_KEYS\<close> is the module constant (the configured keys, in order); it is a
  parameter of every function below. The module variable \<^verbatim>\<open>currentKeyIndex\<close> is a
  field of the state. \<open>attempts\<close> is a log kept for the proofs only: the value of the
  cursor at each invocation of a wrapped operation, oldest first. \<open>local\<close> holds what
  the wrapped operation itself mutates (the chunks handed to the caller's sink, an
  accumulator of the enclosing function).
\<close>

record 'l state =
  currentKeyIndex :: nat
  attempts :: "nat list"
  local :: 'l

record client =
  apiKey :: "string option"

text \<open>
  \<^verbatim>\<open>API_KEYS[currentKeyIndex]\<close> is \<^verbatim>\<open>undefined\<close> out of range: \<open>None\<close>.
\<close>

definition getClient :: "string list \<Rightarrow> 'l state \<Rightarrow> jsError + client" where
  "getClient API_KEYS st =
     (if length API_KEYS = 0 then Inl apiKeyMissing
      else Inr \<lparr>apiKey =
        (if currentKeyIndex st < length API_KEYS then Some (API_KEYS ! currentKeyIndex st)
         else None)\<rparr>)"

text \<open>
  \<^verbatim>\<open>rotateKey\<close> is only called by \<^verbatim>\<open>withKeyRotation\<close>, after a failed attempt that
  was not the last one, hence with at least two keys. (On an empty pool the
  JavaScript remainder is \<^verbatim>\<open>NaN\<close>; that case is never reached.)
\<close>

definition rotateKey :: "string list \<Rightarrow> 'l state \<Rightarrow> bool \<times> 'l state" where
  "rotateKey API_KEYS st =
     (let nextIndex = (currentKeyIndex st + 1) mod length API_KEYS in
      if nextIndex = currentKeyIndex st \<and> length API_KEYS = 1 then (False, st)
      else (True, st\<lparr>currentKeyIndex := nextIndex\<rparr>))"

section \<open>withKeyRotation\<close>

text \<open>
  The wrapped operation is a state transformer that returns the value it resolves
  with (\<open>Inr\<close>) or the value it rejects with (\<open>Inl\<close>). The loop of the source, with
  \<^verbatim>\<open>triedKeys\<close> as an argument; each \<^verbatim>\<open>throw err\<close> and the \<^verbatim>\<open>return\<close> is a leaf,
  \<^verbatim>\<open>continue\<close> is the recursive call. The 300 ms pause is not modelled.
\<close>

function withKeyRotation_loop ::
  "string list \<Rightarrow> ('l state \<Rightarrow> (jsError + 'a) \<times> 'l state) \<Rightarrow> nat \<Rightarrow> 'l state
     \<Rightarrow> (jsError + 'a) \<times> 'l state" where
  "withKeyRotation_loop API_KEYS operation triedKeys st =
     (if triedKeys < length API_KEYS then
        (case operation (st\<lparr>attempts := attempts st @ [currentKeyIndex st]\<rparr>) of
           (Inr v, st') \<Rightarrow> (Inr v, st')
         | (Inl err, st') \<Rightarrow>
             if name err = Some ''AbortError'' then (Inl err, st')
             else if is429Error err then
               (if triedKeys + 1 < length API_KEYS
                then withKeyRotation_loop API_KEYS operation (triedKeys + 1)
                       (snd (rotateKey API_KEYS st'))
                else (Inl err, st'))
             else (Inl err, st'))
      else (Inl allKeysExhausted, st))"
  by pat_completeness auto
termination
  by (relation "measure (\<lambda>(ks, operation, triedKeys, st). length ks - triedKeys)") auto

declare withKeyRotation_loop.simps [simp del]

definition withKeyRotation ::
  "string list \<Rightarrow> ('l state \<Rightarrow> (jsError + 'a) \<times> 'l state) \<Rightarrow> 'l state
     \<Rightarrow> (jsError + 'a) \<times> 'l state" where
  "withKeyRotation API_KEYS operation st = withKeyRotation_loop API_KEYS operation 0 st"

text \<open>
  Every operation of the service has the shape
  \<^verbatim>\<open>async () => { const ai = getClient(); ... }\<close>: it fetches the client for the
  current key, then runs a body that talks to the provider and may write to the
  sink. The body cannot reach the cursor. The provider is outside the program: its
  answer is a function of the number of the attempt (how many wrapped operations
  ran before this one) and of the client used.
\<close>

definition attemptNo :: "'l state \<Rightarrow> nat" where
  "attemptNo st = length (attempts st) - 1"

definition request ::
  "string list \<Rightarrow> (nat \<Rightarrow> client \<Rightarrow> 'l \<Rightarrow> (jsError + 'a) \<times> 'l) \<Rightarrow> 'l state
     \<Rightarrow> (jsError + 'a) \<times> 'l state" where
  "request API_KEYS body st =
     (case getClient API_KEYS st of
        Inl err \<Rightarrow> (Inl err, st)
      | Inr ai \<Rightarrow>
          (case body (attemptNo st) ai (local st) of
             (r, l') \<Rightarrow> (r, st\<lparr>local := l'\<rparr>)))"

text \<open>
  How the \<^verbatim>\<open>catch\<close> block classifies a thrown value: the cancellation test comes
  first, so an error named \<^verbatim>\<open>AbortError\<close> is never retried, whatever else it carries.
  \<open>final\<close> holds of an outcome that ends the call whichever key is in use.
\<close>

definition retryable :: "jsError \<Rightarrow> bool" where
  "retryable err = (name err \<noteq> Some ''AbortError'' \<and> is429Error err)"

definition final :: "jsError + 'a \<Rightarrow> bool" where
  "final r = (case r of Inr v \<Rightarrow> True | Inl err \<Rightarrow> \<not> retryable err)"

section \<open>Streaming operations\<close>

text \<open>
  What the provider hands back for a streaming request: an asynchronous sequence of
  fragments that ends normally or by throwing. \<^verbatim>\<open>chunk.text\<close> may be
  \<^verbatim>\<open>undefined\<close> (\<open>None\<close>). The request itself may be rejected before any
  sequence exists; the provider then answers \<open>Inl\<close>.
\<close>

record stream =
  fragments :: "string option list"
  failure :: "jsError option"

type_synonym provider = "nat \<Rightarrow> client \<Rightarrow> jsError + stream"

text \<open>
  The optional \<^verbatim>\<open>abortSignal\<close>. Its flag is read once per fragment received
  (and, in \<^verbatim>\<open>generateCaseStudy\<close>, once before the stream is opened). What a read
  returns depends on the moment: it is given by the number of the attempt and the
  number of reads made before in that attempt.
\<close>

type_synonym abortSignal = "(nat \<Rightarrow> nat \<Rightarrow> bool) option"

definition aborted :: "abortSignal \<Rightarrow> nat \<Rightarrow> nat \<Rightarrow> bool" where
  "aborted abortSignal n i = (case abortSignal of None \<Rightarrow> False | Some flag \<Rightarrow> flag n i)"

text \<open>\<^verbatim>\<open>if (chunk.text)\<close>: neither \<^verbatim>\<open>undefined\<close> nor the empty string.\<close>

definition truthy :: "string option \<Rightarrow> bool" where
  "truthy t = (case t of None \<Rightarrow> False | Some s \<Rightarrow> s \<noteq> [])"

text \<open>
  The caller's sink is modelled by what it has received: \<^verbatim>\<open>onChunk(text)\<close> appends
  \<open>text\<close> to the list of chunks delivered so far.
\<close>

definition onChunk :: "string \<Rightarrow> string list \<Rightarrow> string list" where
  "onChunk t sink = sink @ [t]"

text \<open>
  The loop shared by \<^verbatim>\<open>streamChatResponse\<close>, \<^verbatim>\<open>snapAndSolve\<close> and the other
  streaming operations:
  \<^verbatim>\<open>for await (const chunk of result) { if (abortSignal?.aborted) break;
     if (chunk.text) { onChunk(chunk.text); } }\<close>
  Leaving by \<^verbatim>\<open>break\<close> ends the loop normally.
\<close>

fun forAwait :: "(nat \<Rightarrow> bool) \<Rightarrow> nat \<Rightarrow> string option list \<Rightarrow> jsError option \<Rightarrow> string list
    \<Rightarrow> (jsError + unit) \<times> string list" where
  "forAwait flag i [] fail sink =
     (case fail of None \<Rightarrow> (Inr (), sink) | Some err \<Rightarrow> (Inl err, sink))"
| "forAwait flag i (chunk # rest) fail sink =
     (if flag i then (Inr (), sink)
      else forAwait flag (i + 1) rest fail
             (if truthy chunk then onChunk (the chunk) sink else sink))"

text \<open>
  The operation wrapped by \<^verbatim>\<open>streamChatResponse\<close> and by \<^verbatim>\<open>snapAndSolve\<close>, after
  \<^verbatim>\<open>getClient\<close>: open the stream (the prompt, the history and the image are part
  of the request the provider answers), then run the loop.
\<close>

definition streamBody :: "provider \<Rightarrow> abortSignal \<Rightarrow> nat \<Rightarrow> client \<Rightarrow> string list
    \<Rightarrow> (jsError + unit) \<times> string list" where
  "streamBody provider abortSignal n ai sink =
     (case provider n ai of
        Inl err \<Rightarrow> (Inl err, sink)
      | Inr result \<Rightarrow>
          forAwait (aborted abortSignal n) 0 (fragments result) (failure result) sink)"

text \<open>
  \<^verbatim>\<open>try { await withKeyRotation(...) } catch (error) { console.error(...); throw error; }\<close>
\<close>

definition streamChatResponse :: "string list \<Rightarrow> provider \<Rightarrow> abortSignal \<Rightarrow> string list state
    \<Rightarrow> (jsError + unit) \<times> string list state" where
  "streamChatResponse API_KEYS provider abortSignal st =
     (case withKeyRotation API_KEYS (request API_KEYS (streamBody provider abortSignal)) st of
        (Inl error, st') \<Rightarrow> (Inl error, st')
      | (Inr v, st') \<Rightarrow> (Inr (), st'))"

definition snapAndSolve :: "string list \<Rightarrow> provider \<Rightarrow> abortSignal \<Rightarrow> string list state
    \<Rightarrow> (jsError + unit) \<times> string list state" where
  "snapAndSolve API_KEYS provider abortSignal st =
     (case withKeyRotation API_KEYS (request API_KEYS (streamBody provider abortSignal)) st of
        (Inl error, st') \<Rightarrow> (Inl error, st')
      | (Inr v, st') \<Rightarrow> (Inr (), st'))"

text \<open>
  \<^verbatim>\<open>generateCaseStudy\<close> reads the flag once more, after \<^verbatim>\<open>getClient\<close> and before
  the request: \<^verbatim>\<open>if (abortSignal?.aborted) throw new DOMException('Aborted', 'AbortError');\<close>
  Both branches of its \<^verbatim>\<open>catch\<close> rethrow.
\<close>

definition caseStudyBody :: "provider \<Rightarrow> abortSignal \<Rightarrow> nat \<Rightarrow> client \<Rightarrow> string list
    \<Rightarrow> (jsError + unit) \<times> string list" where
  "caseStudyBody provider abortSignal n ai sink =
     (if aborted abortSignal n 0 then (Inl abortError, sink)
      else
        (case provider n ai of
           Inl err \<Rightarrow> (Inl err, sink)
         | Inr response \<Rightarrow>
             forAwait (aborted abortSignal n) 1 (fragments response) (failure response) sink))"

definition generateCaseStudy :: "string list \<Rightarrow> provider \<Rightarrow> abortSignal \<Rightarrow> string list state
    \<Rightarrow> (jsError + unit) \<times> string list state" where
  "generateCaseStudy API_KEYS provider abortSignal st =
     (case withKeyRotation API_KEYS (request API_KEYS (caseStudyBody provider abortSignal)) st of
        (Inl error, st') \<Rightarrow> (Inl error, st')
      | (Inr v, st') \<Rightarrow> (Inr (), st'))"

text \<open>The full text of a response: its fragments' texts, in order.\<close>

definition responseText :: "stream \<Rightarrow> string" where
  "responseText result =
     concat (map (\<lambda>chunk. case chunk of None \<Rightarrow> [] | Some s \<Rightarrow> s) (fragments result))"

section \<open>String operations of the post-processing\<close>

text \<open>
  The white space of \<^verbatim>\<open>String.prototype.trim\<close> and of \<^verbatim>\<open>\s\<close>, and the line
  terminators of \<^verbatim>\<open>^\<close> and \<^verbatim>\<open>$\<close> under the \<^verbatim>\<open>m\<close> flag, among the code units
  below 256: tab, line feed, vertical tab, form feed, carriage return, space and
  no-break space; line feed and carriage return.
\<close>

definition isWhiteSpace :: "char \<Rightarrow> bool" where
  "isWhiteSpace c =
     (c = CHR 0x09 \<or> c = CHR 0x0A \<or> c = CHR 0x0B \<or> c = CHR 0x0C \<or> c = CHR 0x0D \<or>
      c = CHR 0x20 \<or> c = CHR 0xA0)"

definition isLineTerminator :: "char \<Rightarrow> bool" where
  "isLineTerminator c = (c = CHR 0x0A \<or> c = CHR 0x0D)"

definition trimStart :: "string \<Rightarrow> string" where
  "trimStart s = dropWhile isWhiteSpace s"

definition trimEnd :: "string \<Rightarrow> string" where
  "trimEnd s = rev (dropWhile isWhiteSpace (rev s))"

definition trim :: "string \<Rightarrow> string" where
  "trim s = trimEnd (trimStart s)"

text \<open>
  \<^verbatim>\<open>s.split(sep)\<close>: the pieces between the occurrences of \<open>sep\<close>, found from left to
  right, each search starting where the previous occurrence ended. \<open>piece\<close> is the
  piece being read. With an empty separator the pieces are the code units.
\<close>

function splitFrom :: "string \<Rightarrow> string \<Rightarrow> string \<Rightarrow> string list" where
  "splitFrom sep piece [] = [piece]"
| "splitFrom sep piece (c # cs) =
     (if sep \<noteq> [] \<and> prefix sep (c # cs)
      then piece # splitFrom sep [] (drop (length sep) (c # cs))
      else splitFrom sep (piece @ [c]) cs)"
  by pat_completeness auto
termination
  by (relation "measure (\<lambda>(sep, piece, s). length s)") (auto simp: neq_Nil_conv)

definition str_split :: "string \<Rightarrow> string \<Rightarrow> string list" where
  "str_split s sep = (if sep = [] then map (\<lambda>c. [c]) s else splitFrom sep [] s)"

text \<open>
  \<^verbatim>\<open>.replace(/^```mermaid\s*/i, '')\<close>: only at the start of the string; the word in
  any letter case.
\<close>

definition toLower :: "char \<Rightarrow> char" where
  "toLower c =
     (case map_of (zip ''ABCDEFGHIJKLMNOPQRSTUVWXYZ'' ''abcdefghijklmnopqrstuvwxyz'') c of
        None \<Rightarrow> c
      | Some l \<Rightarrow> l)"

definition stripMermaidFence :: "string \<Rightarrow> string" where
  "stripMermaidFence s =
     (if map toLower (take 10 s) = ''```mermaid'' then dropWhile isWhiteSpace (drop 10 s)
      else s)"

text \<open>
  \<^verbatim>\<open>.replace(/^```\s*/gm, '')\<close>: every run of three backquotes that starts a line,
  with the white space after it (line breaks included). The flag says whether the
  position is the start of the input or follows a line terminator; after a match
  that is so when the match ended with one.
\<close>

function stripFenceStarts :: "bool \<Rightarrow> string \<Rightarrow> string" where
  "stripFenceStarts atLineStart [] = []"
| "stripFenceStarts atLineStart (c # cs) =
     (if atLineStart \<and> prefix ''```'' (c # cs) then
        stripFenceStarts
          (takeWhile isWhiteSpace (drop 3 (c # cs)) \<noteq> [] \<and>
           isLineTerminator (last (takeWhile isWhiteSpace (drop 3 (c # cs)))))
          (dropWhile isWhiteSpace (drop 3 (c # cs)))
      else c # stripFenceStarts (isLineTerminator c) cs)"
  by pat_completeness auto
termination
proof (relation "measure (\<lambda>(b, s). length s)", goal_cases)
  case 1
  show ?case by simp
next
  case (2 atLineStart c cs)
  have "length (dropWhile isWhiteSpace (drop 3 (c # cs))) \<le> length (drop 3 (c # cs))"
    by (rule length_dropWhile_le)
  then show ?case by simp
next
  case (3 atLineStart c cs)
  show ?case by simp
qed

text \<open>
  \<^verbatim>\<open>.replace(/\s*```$/gm, '')\<close>: every run of three backquotes that ends a line (or
  the input), with the white space before it. A match starts at the first position
  from which white space and then the three backquotes lead to the end of a line.
\<close>

definition atLineEnd :: "string \<Rightarrow> bool" where
  "atLineEnd r = (case r of [] \<Rightarrow> True | d # ds \<Rightarrow> isLineTerminator d)"

function stripFenceEnds :: "string \<Rightarrow> string" where
  "stripFenceEnds [] = []"
| "stripFenceEnds (c # cs) =
     (if prefix ''```'' (dropWhile isWhiteSpace (c # cs)) \<and>
         atLineEnd (drop 3 (dropWhile isWhiteSpace (c # cs)))
      then stripFenceEnds (drop 3 (dropWhile isWhiteSpace (c # cs)))
      else c # stripFenceEnds cs)"
  by pat_completeness auto
termination
proof (relation "measure length", goal_cases)
  case 1
  show ?case by simp
next
  case (2 c cs)
  have "length (dropWhile isWhiteSpace (c # cs)) \<le> length (c # cs)"
    by (rule length_dropWhile_le)
  moreover have "3 \<le> length (dropWhile isWhiteSpace (c # cs))"
    using 2 by (auto simp: prefix_def)
  ultimately show ?case by simp
next
  case (3 c cs)
  show ?case by simp
qed

text \<open>
  The two replacements of \<^verbatim>\<open>analyzeJudgment\<close>, without flags:
  \<^verbatim>\<open>.replace(/^```(?:json)?\s*/, '')\<close> at the start of the string, and
  \<^verbatim>\<open>.replace(/\s*```$/, '')\<close>, whose only possible match is a suffix of the string.
\<close>

definition stripOpeningFence :: "string \<Rightarrow> string" where
  "stripOpeningFence s =
     (if prefix ''```'' s then
        dropWhile isWhiteSpace
          (if prefix ''json'' (drop 3 s) then drop 4 (drop 3 s) else drop 3 s)
      else s)"

fun stripClosingFence :: "string \<Rightarrow> string" where
  "stripClosingFence [] = []"
| "stripClosingFence (c # cs) =
     (if dropWhile isWhiteSpace (c # cs) = ''```'' then [] else c # stripClosingFence cs)"

section \<open>Flowchart generation\<close>

text \<open>
  The post-processing of \<^verbatim>\<open>generateLegalFlowchart\<close> (the response text onwards):
  \<^verbatim>\<open>parts[0]?.trim() || ''\<close>, \<^verbatim>\<open>parts[1]?.trim() || ''\<close>, then the three
  replacements and a last \<^verbatim>\<open>trim\<close> on the first part. Pieces after the second one
  are not used.
\<close>

record flowchart =
  mermaid :: string
  explanation :: string

definition marker :: string where
  "marker = ''---EXPLANATION---''"

definition cleanMermaid :: "string \<Rightarrow> string" where
  "cleanMermaid mermaidCode =
     trim (stripFenceEnds (stripFenceStarts True (stripMermaidFence mermaidCode)))"

definition flowchartOf :: "string \<Rightarrow> flowchart" where
  "flowchartOf raw =
     (let parts = str_split raw marker;
          mermaidCode = (case parts of [] \<Rightarrow> [] | p # ps \<Rightarrow> trim p);
          explanation = (case parts of p # q # ps \<Rightarrow> trim q | _ \<Rightarrow> [])
      in \<lparr>mermaid = cleanMermaid mermaidCode, explanation = explanation\<rparr>)"

text \<open>
  A single-shot request: the provider answers with the response, whose
  \<^verbatim>\<open>text\<close> may be \<^verbatim>\<open>undefined\<close>, or rejects.
  \<^verbatim>\<open>const raw = response.text || ''\<close>.
\<close>

type_synonym textProvider = "nat \<Rightarrow> client \<Rightarrow> jsError + string option"

definition flowchartBody :: "textProvider \<Rightarrow> nat \<Rightarrow> client \<Rightarrow> unit
    \<Rightarrow> (jsError + flowchart) \<times> unit" where
  "flowchartBody provider n ai l =
     (case provider n ai of
        Inl err \<Rightarrow> (Inl err, l)
      | Inr text \<Rightarrow> (Inr (flowchartOf (case text of None \<Rightarrow> [] | Some t \<Rightarrow> t)), l))"

definition generateLegalFlowchart :: "string list \<Rightarrow> textProvider \<Rightarrow> unit state
    \<Rightarrow> (jsError + flowchart) \<times> unit state" where
  "generateLegalFlowchart API_KEYS provider st =
     (case withKeyRotation API_KEYS (request API_KEYS (flowchartBody provider)) st of
        (Inl error, st') \<Rightarrow> (Inl error, st')
      | (Inr v, st') \<Rightarrow> (Inr v, st'))"

section \<open>Judgment analysis and semantic search\<close>

text \<open>
  The values \<^verbatim>\<open>JSON.parse\<close> returns. \<^verbatim>\<open>JSON.parse\<close> itself belongs to the
  platform: it is a parameter \<open>JSON_parse\<close> of the operations below, \<open>None\<close> where it
  throws a \<^verbatim>\<open>SyntaxError\<close>.
\<close>

datatype json =
  JNull
| JBool bool
| JNumber int
| JString string
| JArray "json list"
| JObject "(string \<times> json) list"

text \<open>
  \<^verbatim>\<open>let cleaned = fullResponse.trim();
  if (cleaned.startsWith('```')) { cleaned = cleaned.replace(...).replace(...); }\<close>
\<close>

definition cleanResponse :: "string \<Rightarrow> string" where
  "cleanResponse fullResponse =
     (let cleaned = trim fullResponse in
      if prefix ''```'' cleaned then stripClosingFence (stripOpeningFence cleaned)
      else cleaned)"

text \<open>
  \<^verbatim>\<open>try { ...; return JSON.parse(cleaned) as JudgmentAnalysis; }
  catch (parseErr) { ...; return null; }\<close>. The cast checks nothing at run time.
\<close>

definition parseAnalysis :: "(string \<Rightarrow> json option) \<Rightarrow> string \<Rightarrow> json" where
  "parseAnalysis JSON_parse fullResponse =
     (case JSON_parse (cleanResponse fullResponse) of
        Some v \<Rightarrow> v
      | None \<Rightarrow> JNull)"

text \<open>
  The loop of \<^verbatim>\<open>analyzeJudgment\<close>. \<^verbatim>\<open>fullResponse\<close> is declared outside the
  wrapped operation, so it lives through the attempts of one call: the local state
  is the pair of \<^verbatim>\<open>fullResponse\<close> and the sink.
\<close>

fun forAwaitCollect :: "(nat \<Rightarrow> bool) \<Rightarrow> nat \<Rightarrow> string option list \<Rightarrow> jsError option
    \<Rightarrow> string \<times> string list \<Rightarrow> (jsError + unit) \<times> string \<times> string list" where
  "forAwaitCollect flag i [] fail l =
     (case fail of None \<Rightarrow> (Inr (), l) | Some err \<Rightarrow> (Inl err, l))"
| "forAwaitCollect flag i (chunk # rest) fail l =
     (if flag i then (Inr (), l)
      else forAwaitCollect flag (i + 1) rest fail
             (if truthy chunk then (fst l @ the chunk, onChunk (the chunk) (snd l)) else l))"

definition judgmentBody :: "provider \<Rightarrow> abortSignal \<Rightarrow> nat \<Rightarrow> client \<Rightarrow> string \<times> string list
    \<Rightarrow> (jsError + unit) \<times> string \<times> string list" where
  "judgmentBody provider abortSignal n ai l =
     (case provider n ai of
        Inl err \<Rightarrow> (Inl err, l)
      | Inr response \<Rightarrow>
          forAwaitCollect (aborted abortSignal n) 0 (fragments response) (failure response) l)"

text \<open>
  \<^verbatim>\<open>analyzeJudgment\<close>: \<^verbatim>\<open>let fullResponse = ''\<close>, the wrapped loop, then the
  parse. Both branches of the outer \<^verbatim>\<open>catch\<close> rethrow.
\<close>

definition analyzeJudgment :: "(string \<Rightarrow> json option) \<Rightarrow> string list \<Rightarrow> provider \<Rightarrow> abortSignal
    \<Rightarrow> string list state \<Rightarrow> (jsError + json) \<times> string list state" where
  "analyzeJudgment JSON_parse API_KEYS provider abortSignal st =
     (case withKeyRotation API_KEYS (request API_KEYS (judgmentBody provider abortSignal))
             \<lparr>currentKeyIndex = currentKeyIndex st, attempts = attempts st,
              local = ([], local st)\<rparr> of
        (Inl error, st') \<Rightarrow>
          (Inl error,
           \<lparr>currentKeyIndex = currentKeyIndex st', attempts = attempts st',
            local = snd (local st')\<rparr>)
      | (Inr v, st') \<Rightarrow>
          (Inr (parseAnalysis JSON_parse (fst (local st'))),
           \<lparr>currentKeyIndex = currentKeyIndex st', attempts = attempts st',
            local = snd (local st')\<rparr>))"

text \<open>
  \<^verbatim>\<open>aiSearchJudgments\<close>: \<^verbatim>\<open>const raw = response.text?.trim() || '[]'\<close>, the inner
  \<^verbatim>\<open>try { return JSON.parse(raw) as string[]; } catch { return []; }\<close>, and the outer
  \<^verbatim>\<open>catch (error) { ...; return []; }\<close>. The signal is not used. An exception raised
  while the prompt is built inside the wrapped operation meets the same handlers as
  a rejection by the provider, and is covered by it.
\<close>

definition rawText :: "string option \<Rightarrow> string" where
  "rawText text =
     (case text of
        None \<Rightarrow> ''[]''
      | Some t \<Rightarrow> if trim t = [] then ''[]'' else trim t)"

definition searchBody :: "(string \<Rightarrow> json option) \<Rightarrow> textProvider \<Rightarrow> nat \<Rightarrow> client \<Rightarrow> unit
    \<Rightarrow> (jsError + json) \<times> unit" where
  "searchBody JSON_parse provider n ai l =
     (case provider n ai of
        Inl err \<Rightarrow> (Inl err, l)
      | Inr text \<Rightarrow>
          (Inr (case JSON_parse (rawText text) of Some v \<Rightarrow> v | None \<Rightarrow> JArray []), l))"

definition aiSearchJudgments :: "(string \<Rightarrow> json option) \<Rightarrow> string list \<Rightarrow> textProvider
    \<Rightarrow> unit state \<Rightarrow> (jsError + json) \<times> unit state" where
  "aiSearchJudgments JSON_parse API_KEYS provider st =
     (case withKeyRotation API_KEYS (request API_KEYS (searchBody JSON_parse provider)) st of
        (Inl error, st') \<Rightarrow> (Inr (JArray []), st')
      | (Inr v, st') \<Rightarrow> (Inr v, st'))"

section \<open>A reader for plain JSON texts\<close>

text \<open>
  The theorems below hold for any \<open>JSON_parse\<close>. To run the operations on examples,
  \<open>parseJSON\<close> reads the JSON texts made of objects, arrays, strings without escape
  sequences, integers and the three literal names, with JSON's white space (space,
  tab, line feed, carriage return) between tokens. It answers \<open>None\<close> on every
  other text, among them the texts with escape sequences, fractions or exponents
  that \<^verbatim>\<open>JSON.parse\<close> accepts; it is applied below only to texts on which its answer
  is that of \<^verbatim>\<open>JSON.parse\<close>. An object is the list of its members in source
  order. The first argument of the three mutually recursive functions bounds the
  depth of the recursion.
\<close>

definition isJsonSpace :: "char \<Rightarrow> bool" where
  "isJsonSpace c = (c = CHR 0x20 \<or> c = CHR 0x09 \<or> c = CHR 0x0A \<or> c = CHR 0x0D)"

definition skipSpace :: "string \<Rightarrow> string" where
  "skipSpace s = dropWhile isJsonSpace s"

definition isDigit :: "char \<Rightarrow> bool" where
  "isDigit c = (c \<in> set ''0123456789'')"

definition digitValue :: "char \<Rightarrow> int" where
  "digitValue c =
     (case map_of (zip ''0123456789'' [0, 1, 2, 3, 4, 5, 6, 7, 8, 9]) c of
        None \<Rightarrow> 0
      | Some d \<Rightarrow> d)"

text \<open>The characters of a string up to the closing quote; \<open>None\<close> on a backslash, a
  control character or a missing quote.\<close>

fun readString :: "string \<Rightarrow> (string \<times> string) option" where
  "readString [] = None"
| "readString (c # cs) =
     (if c = CHR 0x22 then Some ([], cs)
      else if c = CHR 0x5C \<or> (of_char c :: nat) < 32 then None
      else (case readString cs of None \<Rightarrow> None | Some (s, r) \<Rightarrow> Some (c # s, r)))"

text \<open>An integer: an optional minus sign and digits without a leading zero, not
  followed by a fraction or an exponent.\<close>

definition readNumber :: "string \<Rightarrow> (json \<times> string) option" where
  "readNumber s =
     (let negative = prefix ''-'' s;
          body = (if negative then drop 1 s else s);
          digits = takeWhile isDigit body;
          r = dropWhile isDigit body
      in if digits = [] \<or> (1 < length digits \<and> hd digits = CHR ''0'') then None
         else if r \<noteq> [] \<and> hd r \<in> set ''.eE'' then None
         else Some (JNumber ((if negative then - 1 else 1) *
                      foldl (\<lambda>n c. 10 * n + digitValue c) 0 digits), r))"

fun readValue :: "nat \<Rightarrow> string \<Rightarrow> (json \<times> string) option"
  and readElements :: "nat \<Rightarrow> string \<Rightarrow> (json list \<times> string) option"
  and readMembers :: "nat \<Rightarrow> string \<Rightarrow> ((string \<times> json) list \<times> string) option" where
  "readValue 0 s = None"
| "readValue (Suc n) s =
     (case skipSpace s of
        [] \<Rightarrow> None
      | c # cs \<Rightarrow>
          if c = CHR 0x7B then
            (if prefix ''}'' (skipSpace cs) then Some (JObject [], drop 1 (skipSpace cs))
             else (case readMembers n cs of
                     None \<Rightarrow> None
                   | Some (ms, r) \<Rightarrow> Some (JObject ms, r)))
          else if c = CHR 0x5B then
            (if prefix '']'' (skipSpace cs) then Some (JArray [], drop 1 (skipSpace cs))
             else (case readElements n cs of
                     None \<Rightarrow> None
                   | Some (vs, r) \<Rightarrow> Some (JArray vs, r)))
          else if c = CHR 0x22 then
            (case readString cs of None \<Rightarrow> None | Some (str, r) \<Rightarrow> Some (JString str, r))
          else if prefix ''null'' (c # cs) then Some (JNull, drop 4 (c # cs))
          else if prefix ''true'' (c # cs) then Some (JBool True, drop 4 (c # cs))
          else if prefix ''false'' (c # cs) then Some (JBool False, drop 5 (c # cs))
          else readNumber (c # cs))"
| "readElements 0 s = None"
| "readElements (Suc n) s =
     (case readValue n s of
        None \<Rightarrow> None
      | Some (v, r) \<Rightarrow>
          if prefix '']'' (skipSpace r) then Some ([v], drop 1 (skipSpace r))
          else if prefix '','' (skipSpace r) then
            (case readElements n (drop 1 (skipSpace r)) of
               None \<Rightarrow> None
             | Some (vs, r') \<Rightarrow> Some (v # vs, r'))
          else None)"
| "readMembers 0 s = None"
| "readMembers (Suc n) s =
     (if prefix [CHR 0x22] (skipSpace s) then
        (case readString (drop 1 (skipSpace s)) of
           None \<Rightarrow> None
         | Some (key, r) \<Rightarrow>
             if prefix '':'' (skipSpace r) then
               (case readValue n (drop 1 (skipSpace r)) of
                  None \<Rightarrow> None
                | Some (v, r') \<Rightarrow>
                    if prefix ''}'' (skipSpace r') then Some ([(key, v)], drop 1 (skipSpace r'))
                    else if prefix '','' (skipSpace r') then
                      (case readMembers n (drop 1 (skipSpace r')) of
                         None \<Rightarrow> None
                       | Some (ms, r'') \<Rightarrow> Some ((key, v) # ms, r''))
                    else None)
             else None)
      else None)"

definition parseJSON :: "string \<Rightarrow> json option" where
  "parseJSON s =
     (case readValue (2 * length s + 2) s of
        None \<Rightarrow> None
      | Some (v, r) \<Rightarrow> if skipSpace r = [] then Some v else None)"

section \<open>The course of one call\<close>

text \<open>
  For a call that starts in state \<open>st\<close>: the client of its attempt number \<open>j\<close>
  (counted from 0; the cursor advances by one per attempt and wraps around), the
  provider's answer to that attempt, and the condition that the call reaches
  attempt \<open>k\<close>: the cursor is a valid index, \<open>k\<close> is less than the number of keys,
  and the provider rejected each earlier attempt with a rate-limit error that is
  no cancellation.
\<close>

definition clientAt :: "string list \<Rightarrow> 'l state \<Rightarrow> nat \<Rightarrow> client" where
  "clientAt API_KEYS st j =
     \<lparr>apiKey = Some (API_KEYS ! ((currentKeyIndex st + j) mod length API_KEYS))\<rparr>"

definition answerAt :: "string list \<Rightarrow> (nat \<Rightarrow> client \<Rightarrow> jsError + 'r) \<Rightarrow> 'l state \<Rightarrow> nat
    \<Rightarrow> jsError + 'r" where
  "answerAt API_KEYS provider st j =
     provider (length (attempts st) + j) (clientAt API_KEYS st j)"

definition rateLimitedBefore :: "string list \<Rightarrow> (nat \<Rightarrow> client \<Rightarrow> jsError + 'r) \<Rightarrow> 'l state \<Rightarrow> nat
    \<Rightarrow> bool" where
  "rateLimitedBefore API_KEYS provider st k =
     (currentKeyIndex st < length API_KEYS \<and> k < length API_KEYS \<and>
      (\<forall>j\<in>{..<k}. case answerAt API_KEYS provider st j of
                      Inl err \<Rightarrow> retryable err
                    | Inr r \<Rightarrow> False))"

text \<open>
  For the streaming operations. What one attempt does when the flag is never set,
  read off the provider's answer \<open>a\<close>: the outcome of the wrapped operation (the
  request's rejection, or the way the stream ends), the chunks it hands to the
  sink, and the text it streams.
\<close>

definition outcomeOf :: "jsError + stream \<Rightarrow> jsError + unit" where
  "outcomeOf a =
     (case a of
        Inl err \<Rightarrow> Inl err
      | Inr response \<Rightarrow> (case failure response of None \<Rightarrow> Inr () | Some err \<Rightarrow> Inl err))"

definition chunksOf :: "jsError + stream \<Rightarrow> string list" where
  "chunksOf a =
     (case a of
        Inl err \<Rightarrow> []
      | Inr response \<Rightarrow> map the (filter truthy (fragments response)))"

definition textOf :: "jsError + stream \<Rightarrow> string" where
  "textOf a = (case a of Inl err \<Rightarrow> [] | Inr response \<Rightarrow> responseText response)"

text \<open>
  An attempt that is retried without a trace in the sink: the request is rejected
  with a rate-limit error that is no cancellation, or the stream breaks with such
  an error and none of its fragments has text. \<open>quietBefore\<close>: the call reaches
  attempt \<open>k\<close> and every earlier attempt was of that kind. \<open>endsCall\<close>: the answer to
  attempt \<open>k\<close> is not retried, because the stream runs to its end, or the error is
  not retryable, or no key is left.
\<close>

definition retriedQuietly :: "jsError + stream \<Rightarrow> bool" where
  "retriedQuietly a =
     (case a of
        Inl err \<Rightarrow> retryable err
      | Inr response \<Rightarrow>
          filter truthy (fragments response) = [] \<and>
          (case failure response of None \<Rightarrow> False | Some err \<Rightarrow> retryable err))"

definition quietBefore :: "string list \<Rightarrow> provider \<Rightarrow> 'l state \<Rightarrow> nat \<Rightarrow> bool" where
  "quietBefore API_KEYS provider st k =
     (currentKeyIndex st < length API_KEYS \<and> k < length API_KEYS \<and>
      (\<forall>j\<in>{..<k}. retriedQuietly (answerAt API_KEYS provider st j)))"

definition endsCall :: "string list \<Rightarrow> nat \<Rightarrow> jsError + stream \<Rightarrow> bool" where
  "endsCall API_KEYS k a =
     (case a of
        Inl err \<Rightarrow> \<not> retryable err \<or> k + 1 = length API_KEYS
      | Inr response \<Rightarrow>
          (case failure response of
             None \<Rightarrow> True
           | Some err \<Rightarrow> \<not> retryable err \<or> k + 1 = length API_KEYS))"

section \<open>Example inputs\<close>

text \<open>Two provider errors: one as the SDK reports a 429, one that carries the number
  in \<^verbatim>\<open>httpStatusCode\<close> only.\<close>

definition rateLimitError :: jsError where
  "rateLimitError =
     \<lparr>name = Some ''ApiError'', message = Some ''got status: 429 Too Many Requests'',
      status = Some 429, code = None, httpStatusCode = None\<rparr>"

definition httpStatusOnlyError :: jsError where
  "httpStatusOnlyError =
     \<lparr>name = Some ''HttpError'', message = Some ''Too Many Requests'',
      status = None, code = None, httpStatusCode = Some 429\<rparr>"

definition networkError :: jsError where
  "networkError =
     \<lparr>name = Some ''TypeError'', message = Some ''Failed to fetch'',
      status = None, code = None, httpStatusCode = None\<rparr>"

definition pool3 :: "string list" where
  "pool3 = [''K1'', ''K2'', ''K3'']"

definition pool2 :: "string list" where
  "pool2 = [''K1'', ''K2'']"

definition fresh :: "'l \<Rightarrow> 'l state" where
  "fresh l = \<lparr>currentKeyIndex = 0, attempts = [], local = l\<rparr>"

text \<open>A body that rejects with the same error under every key.\<close>

definition alwaysFails :: "jsError \<Rightarrow> nat \<Rightarrow> client \<Rightarrow> unit \<Rightarrow> (jsError + string) \<times> unit" where
  "alwaysFails err n ai l = (Inl err, l)"

text \<open>A body that is rate-limited under every key but \<open>K3\<close>, where it returns \<open>OK\<close>.\<close>

definition okUnderK3 :: "nat \<Rightarrow> client \<Rightarrow> unit \<Rightarrow> (jsError + string) \<times> unit" where
  "okUnderK3 n ai l =
     (if apiKey ai = Some ''K3'' then (Inr ''OK'', l) else (Inl rateLimitError, l))"

text \<open>A response in two fragments, and a signal that is set from the start.\<close>

definition hello :: stream where
  "hello = \<lparr>fragments = [Some ''Hel'', Some ''lo''], failure = None\<rparr>"

definition helloProvider :: provider where
  "helloProvider n ai = Inr hello"

definition alreadyAborted :: abortSignal where
  "alreadyAborted = Some (\<lambda>n i. True)"

text \<open>
  A provider whose first stream breaks with a rate-limit error after one fragment,
  and whose second stream is complete.
\<close>

definition brokenThenHello :: provider where
  "brokenThenHello n ai =
     (if n = 0 then Inr \<lparr>fragments = [Some ''Hel''], failure = Some rateLimitError\<rparr>
      else Inr hello)"

text \<open>Responses to the judgment analysis, each streamed in two fragments, and
  responses to the semantic search.\<close>

definition streamed :: "string \<Rightarrow> string \<Rightarrow> provider" where
  "streamed a b n ai = Inr \<lparr>fragments = [Some a, Some b], failure = None\<rparr>"

definition answered :: "string \<Rightarrow> textProvider" where
  "answered t n ai = Inr (Some t)"

definition rejected :: "jsError \<Rightarrow> textProvider" where
  "rejected err n ai = Inl err"

text \<open>
  A provider whose first stream holds no text and breaks with a rate-limit error,
  and whose second stream is complete.
\<close>

definition silentThenHello :: provider where
  "silentThenHello n ai =
     (if n = 0 then Inr \<lparr>fragments = [None, Some []], failure = Some rateLimitError\<rparr>
      else Inr hello)"

text \<open>
  A provider whose first stream breaks with a rate-limit error after the fragment
  \<open>a\<close>, and whose second stream is \<open>b\<close>, \<open>c\<close>.
\<close>

definition brokenThen :: "string \<Rightarrow> string \<Rightarrow> string \<Rightarrow> provider" where
  "brokenThen a b c n ai =
     (if n = 0 then Inr \<lparr>fragments = [Some a], failure = Some rateLimitError\<rparr>
      else Inr \<lparr>fragments = [Some b, Some c], failure = None\<rparr>)"

section \<open>Properties of the rotation layer\<close>

lemma rotateKey_two:
  "2 \<le> length K \<Longrightarrow>
     snd (rotateKey K st) = st\<lparr>currentKeyIndex := Suc (currentKeyIndex st) mod length K\<rparr>"
  by (simp add: rotateKey_def Let_def)

lemma request_logged:
  assumes "currentKeyIndex st < length K"
  shows "request K body (st\<lparr>attempts := attempts st @ [currentKeyIndex st]\<rparr>) =
     (fst (body (length (attempts st)) \<lparr>apiKey = Some (K ! currentKeyIndex st)\<rparr> (local st)),
      st\<lparr>attempts := attempts st @ [currentKeyIndex st],
         local := snd (body (length (attempts st)) \<lparr>apiKey = Some (K ! currentKeyIndex st)\<rparr>
                         (local st))\<rparr>)"
  using assms by (auto simp: request_def getClient_def attemptNo_def split: prod.splits)

text \<open>
  The course of one call: if the first \<open>k\<close> attempts are rejected with retryable
  errors and the next outcome \<open>r\<close> is final, or comes from the last key to try, the
  call ends with \<open>r\<close> after exactly \<open>k + 1\<close> attempts, one per key in cursor order.
  \<open>P\<close> is kept by the rejected attempts, \<open>Q\<close> describes what the last one leaves.
\<close>

lemma loop_run_inv:
  assumes "currentKeyIndex st < length K" and "t + k < length K" and "P (local st)"
    and "\<And>j l. j < k \<Longrightarrow> P l \<Longrightarrow> \<exists>e. fst (body (length (attempts st) + j)
            \<lparr>apiKey = Some (K ! ((currentKeyIndex st + j) mod length K))\<rparr> l) = Inl e \<and> retryable e \<and>
            P (snd (body (length (attempts st) + j)
            \<lparr>apiKey = Some (K ! ((currentKeyIndex st + j) mod length K))\<rparr> l))"
    and "\<And>l. P l \<Longrightarrow> fst (body (length (attempts st) + k)
            \<lparr>apiKey = Some (K ! ((currentKeyIndex st + k) mod length K))\<rparr> l) = r \<and>
          Q (snd (body (length (attempts st) + k)
            \<lparr>apiKey = Some (K ! ((currentKeyIndex st + k) mod length K))\<rparr> l))"
    and "final r \<or> t + k + 1 = length K"
  shows "fst (withKeyRotation_loop K (request K body) t st) = r \<and>
         currentKeyIndex (snd (withKeyRotation_loop K (request K body) t st)) =
           (currentKeyIndex st + k) mod length K \<and>
         attempts (snd (withKeyRotation_loop K (request K body) t st)) =
           attempts st @ map (\<lambda>j. (currentKeyIndex st + j) mod length K) [0..<Suc k] \<and>
         Q (local (snd (withKeyRotation_loop K (request K body) t st)))"
  using assms
proof (induction k arbitrary: t st)
  case 0
  let ?b = "body (length (attempts st)) \<lparr>apiKey = Some (K ! currentKeyIndex st)\<rparr> (local st)"
  have r: "fst ?b = r" "Q (snd ?b)" using "0.prems"(5)[of "local st"] "0.prems"(1,3) by simp_all
  have t: "t < length K" using "0.prems"(2) by simp
  show ?case
  proof (cases r)
    case (Inr v)
    then show ?thesis using r t "0.prems"(1)
      by (subst (1 2 3 4) withKeyRotation_loop.simps) (simp add: request_logged)
  next
    case (Inl e)
    then have "\<not> retryable e \<or> \<not> t + 1 < length K"
      using "0.prems"(6) by (auto simp: final_def)
    then show ?thesis using r t "0.prems"(1) Inl
      by (subst (1 2 3 4) withKeyRotation_loop.simps) (auto simp add: request_logged retryable_def)
  qed
next
  case (Suc k)
  let ?N = "length K"
  let ?c = "currentKeyIndex st"
  let ?b = "body (length (attempts st)) \<lparr>apiKey = Some (K ! ?c)\<rparr> (local st)"
  obtain e where e: "fst ?b = Inl e" "retryable e" "P (snd ?b)"
    using Suc.prems(4)[of 0 "local st"] Suc.prems(1,3) by auto
  have t: "t < ?N" "t + 1 < ?N" "2 \<le> ?N" using Suc.prems(2) by simp_all
  let ?st1 = "st\<lparr>attempts := attempts st @ [?c], local := snd ?b\<rparr>"
  let ?st2 = "?st1\<lparr>currentKeyIndex := Suc ?c mod ?N\<rparr>"
  have unfold: "withKeyRotation_loop K (request K body) t st =
          withKeyRotation_loop K (request K body) (t + 1) ?st2"
    using e t Suc.prems(1)
    by (subst withKeyRotation_loop.simps) (simp add: request_logged retryable_def rotateKey_two)
  have "0 < ?N" using t(1) by (cases K) simp_all
  then have c2: "currentKeyIndex ?st2 < ?N" by simp
  have idx: "\<And>j. (Suc ?c mod ?N + j) mod ?N = Suc (?c + j) mod ?N"
    by (simp add: mod_add_left_eq)
  have IH: "fst (withKeyRotation_loop K (request K body) (t + 1) ?st2) = r \<and>
         currentKeyIndex (snd (withKeyRotation_loop K (request K body) (t + 1) ?st2)) =
           (currentKeyIndex ?st2 + k) mod length K \<and>
         attempts (snd (withKeyRotation_loop K (request K body) (t + 1) ?st2)) =
           attempts ?st2 @ map (\<lambda>j. (currentKeyIndex ?st2 + j) mod length K) [0..<Suc k] \<and>
         Q (local (snd (withKeyRotation_loop K (request K body) (t + 1) ?st2)))"
  proof (rule Suc.IH[OF c2])
    show "t + 1 + k < ?N" using Suc.prems(2) by simp
    show "P (local ?st2)" using e(3) by simp
    show "\<exists>e. fst (body (length (attempts ?st2) + j)
            \<lparr>apiKey = Some (K ! ((currentKeyIndex ?st2 + j) mod ?N))\<rparr> l) = Inl e \<and> retryable e \<and>
            P (snd (body (length (attempts ?st2) + j)
            \<lparr>apiKey = Some (K ! ((currentKeyIndex ?st2 + j) mod ?N))\<rparr> l))"
      if "j < k" "P l" for j l
      using Suc.prems(4)[of "Suc j" l] that by (simp add: idx)
    show "fst (body (length (attempts ?st2) + k)
            \<lparr>apiKey = Some (K ! ((currentKeyIndex ?st2 + k) mod ?N))\<rparr> l) = r \<and>
          Q (snd (body (length (attempts ?st2) + k)
            \<lparr>apiKey = Some (K ! ((currentKeyIndex ?st2 + k) mod ?N))\<rparr> l))" if "P l" for l
      using Suc.prems(5)[of l] that by (simp add: idx)
    show "final r \<or> t + 1 + k + 1 = ?N" using Suc.prems(6) by simp
  qed
  have m: "map (\<lambda>j. (?c + j) mod ?N) [0..<Suc (Suc k)] =
        ?c # map (\<lambda>j. (Suc ?c mod ?N + j) mod ?N) [0..<Suc k]"
    using Suc.prems(1) by (subst map_upt_Suc) (simp add: idx del: upt_Suc)
  show ?case unfolding unfold using IH m by (simp add: idx del: upt_Suc)
qed

text \<open>The same without a condition on what the body leaves behind.\<close>

lemma loop_run:
  assumes "currentKeyIndex st < length K" and "t + k < length K"
    and "\<And>j l. j < k \<Longrightarrow> \<exists>e. fst (body (length (attempts st) + j)
            \<lparr>apiKey = Some (K ! ((currentKeyIndex st + j) mod length K))\<rparr> l) = Inl e \<and> retryable e"
    and "\<And>l. fst (body (length (attempts st) + k)
            \<lparr>apiKey = Some (K ! ((currentKeyIndex st + k) mod length K))\<rparr> l) = r"
    and "final r \<or> t + k + 1 = length K"
  shows "fst (withKeyRotation_loop K (request K body) t st) = r \<and>
         currentKeyIndex (snd (withKeyRotation_loop K (request K body) t st)) =
           (currentKeyIndex st + k) mod length K \<and>
         attempts (snd (withKeyRotation_loop K (request K body) t st)) =
           attempts st @ map (\<lambda>j. (currentKeyIndex st + j) mod length K) [0..<Suc k]"
  using loop_run_inv[of st K t k "\<lambda>l. True" body r "\<lambda>l. True"] assms by simp

text \<open>
  The cursor stays a valid index: a call that starts with the cursor inside the pool
  leaves it inside the pool, whatever the wrapped body does.
\<close>

lemma request_keeps_cursor: "currentKeyIndex (snd (request K body s)) = currentKeyIndex s"
  by (simp add: request_def split: sum.splits prod.splits)

lemma loop_cursor_valid:
  "(\<And>s. currentKeyIndex (snd (operation s)) = currentKeyIndex s) \<Longrightarrow>
   currentKeyIndex st < length K \<Longrightarrow>
   currentKeyIndex (snd (withKeyRotation_loop K operation t st)) < length K"
proof (induction K operation t st rule: withKeyRotation_loop.induct)
  case (1 API_KEYS operation triedKeys st)
  let ?s = "st\<lparr>attempts := attempts st @ [currentKeyIndex st]\<rparr>"
  obtain r st' where op: "operation ?s = (r, st')" by (cases "operation ?s")
  have c: "currentKeyIndex st' = currentKeyIndex st"
    using "1.prems"(1)[of ?s] op by simp
  show ?case
  proof (cases "triedKeys < length API_KEYS")
    case False
    then show ?thesis using "1.prems"(2) by (subst withKeyRotation_loop.simps) simp
  next
    case True
    show ?thesis
    proof (cases r)
      case (Inr v)
      then show ?thesis using True op c "1.prems"(2)
        by (subst withKeyRotation_loop.simps) simp
    next
      case (Inl err)
      show ?thesis
      proof (cases "name err \<noteq> Some ''AbortError'' \<and> is429Error err \<and> triedKeys + 1 < length API_KEYS")
        case False
        then show ?thesis using True op c Inl "1.prems"(2)
          by (subst withKeyRotation_loop.simps) auto
      next
        case go: True
        then have two: "2 \<le> length API_KEYS" by simp
        have "0 < length API_KEYS" using two by (cases API_KEYS) simp_all
        then have "Suc (currentKeyIndex st') mod length API_KEYS < length API_KEYS"
          by (rule mod_less_divisor)
        then have "currentKeyIndex (snd (rotateKey API_KEYS st')) < length API_KEYS"
          using two by (simp add: rotateKey_def Let_def)
        moreover from go have "name err \<noteq> Some ''AbortError''" "is429Error err"
          "triedKeys + 1 < length API_KEYS" by simp_all
        ultimately have "currentKeyIndex (snd (withKeyRotation_loop API_KEYS operation
                 (triedKeys + 1) (snd (rotateKey API_KEYS st')))) < length API_KEYS"
          using "1.IH"[OF True op[symmetric] Inl _ _ _ "1.prems"(1)] by blast
        then show ?thesis using True op Inl go
          by (subst withKeyRotation_loop.simps) simp
      qed
    qed
  qed
qed

lemma withKeyRotation_cursor_valid:
  "currentKeyIndex st < length API_KEYS \<Longrightarrow>
   currentKeyIndex (snd (withKeyRotation API_KEYS (request API_KEYS body) st)) < length API_KEYS"
  unfolding withKeyRotation_def by (rule loop_cursor_valid) (simp_all add: request_keeps_cursor)

lemma allKeysExhausted_not_retryable: "\<not> retryable allKeysExhausted"
  by (simp add: retryable_def is429Error_def allKeysExhausted_def Error_def)

text \<open>
  What the code does when every key is rate-limited: it gives up after one attempt
  per key, and rejects with the error of the last attempt. The error built after
  the loop is not what the caller sees.
\<close>

lemma withKeyRotation_all_rate_limited:
  assumes "currentKeyIndex st < length API_KEYS"
    and "\<And>j l. j < length API_KEYS \<Longrightarrow>
           fst (body (length (attempts st) + j) (clientAt API_KEYS st j) l) = Inl (errs j)"
    and "\<And>j. j < length API_KEYS \<Longrightarrow> retryable (errs j)"
  shows "fst (withKeyRotation API_KEYS (request API_KEYS body) st) =
           Inl (errs (length API_KEYS - 1)) \<and>
         fst (withKeyRotation API_KEYS (request API_KEYS body) st) \<noteq> Inl allKeysExhausted \<and>
         attempts (snd (withKeyRotation API_KEYS (request API_KEYS body) st)) =
           attempts st @
           map (\<lambda>j. (currentKeyIndex st + j) mod length API_KEYS) [0..<length API_KEYS]"
proof -
  let ?N = "length API_KEYS"
  have N: "0 < ?N" using assms(1) by (cases API_KEYS) simp_all
  then obtain k where k: "?N = Suc k" by (cases ?N) simp_all
  have run: "fst (withKeyRotation_loop API_KEYS (request API_KEYS body) 0 st) = Inl (errs k) \<and>
         currentKeyIndex (snd (withKeyRotation_loop API_KEYS (request API_KEYS body) 0 st)) =
           (currentKeyIndex st + k) mod ?N \<and>
         attempts (snd (withKeyRotation_loop API_KEYS (request API_KEYS body) 0 st)) =
           attempts st @ map (\<lambda>j. (currentKeyIndex st + j) mod ?N) [0..<Suc k]"
  proof (rule loop_run[OF assms(1)])
    show "0 + k < ?N" using k by simp
    show "\<exists>e. fst (body (length (attempts st) + j)
            \<lparr>apiKey = Some (API_KEYS ! ((currentKeyIndex st + j) mod ?N))\<rparr> l) = Inl e \<and> retryable e"
      if "j < k" for j l
      using assms(2)[of j l] assms(3)[of j] that k by (simp add: clientAt_def)
    show "fst (body (length (attempts st) + k)
            \<lparr>apiKey = Some (API_KEYS ! ((currentKeyIndex st + k) mod ?N))\<rparr> l) = Inl (errs k)" for l
      using assms(2)[of k l] k by (simp add: clientAt_def)
    show "final (Inl (errs k)) \<or> 0 + k + 1 = ?N" using k by simp
  qed
  have "retryable (errs k)" using assms(3)[of k] k by simp
  then have "errs k \<noteq> allKeysExhausted" using allKeysExhausted_not_retryable by auto
  then show ?thesis using run k by (simp add: withKeyRotation_def del: upt_Suc)
qed

text \<open>
  C3. With an empty pool the loop is not entered: the wrapped operation is never
  invoked (the state, log included, is unchanged), and the call rejects with the
  error built after the loop, which speaks of rate limits. The configuration error
  of \<^verbatim>\<open>getClient\<close> is a different value and is never thrown.
\<close>

theorem withKeyRotation_empty_pool:
  "withKeyRotation [] operation st = (Inl allKeysExhausted, st) \<and>
   allKeysExhausted \<noteq> apiKeyMissing"
  by (simp add: withKeyRotation_def withKeyRotation_loop.simps allKeysExhausted_def
      apiKeyMissing_def Error_def)

text \<open>
  C1. Three keys, every attempt rate-limited: three attempts, one per key, and the
  call rejects with the provider's error of the last attempt, not with the error
  built after the loop.
\<close>

theorem withKeyRotation_exhausted_rethrows_last_error:
  "withKeyRotation pool3 (request pool3 (alwaysFails rateLimitError)) (fresh ()) =
     (Inl rateLimitError, \<lparr>currentKeyIndex = 2, attempts = [0, 1, 2], local = ()\<rparr>) \<and>
   rateLimitError \<noteq> allKeysExhausted"
  by (simp add: withKeyRotation_def withKeyRotation_loop.simps request_def getClient_def
      attemptNo_def rotateKey_def pool3_def fresh_def alwaysFails_def rateLimitError_def
      is429Error_def allKeysExhausted_def Error_def Let_def)

text \<open>The classification of the \<^verbatim>\<open>catch\<close> block, spelled out on the fields.\<close>

lemma retryable_iff:
  "retryable err \<longleftrightarrow>
     name err \<noteq> Some ''AbortError'' \<and>
     ((\<exists>m. message err = Some m \<and>
           (str_includes m ''429'' \<or> str_includes m ''RESOURCE_EXHAUSTED'')) \<or>
      status err = Some 429 \<or> code err = Some 429 \<or> httpStatusCode err = Some 429)"
  by (auto simp: retryable_def is429Error_def split: option.splits)

text \<open>
  C4. If the first \<open>k\<close> attempts of a call (under the key at the cursor, then under
  the following keys in order) are rejected with rate-limit errors, and the next
  attempt resolves with \<open>v\<close>, then the call resolves with \<open>v\<close> after \<open>k + 1\<close>
  attempts, and the cursor stays on the key that succeeded: the next call starts
  with that key. With \<open>k = 1\<close>: credential #1 rate-limited, credential #2 succeeds.
\<close>

theorem withKeyRotation_success_after_rotation:
  assumes "currentKeyIndex st < length API_KEYS" and "k < length API_KEYS"
    and "\<And>j l. j < k \<Longrightarrow>
           \<exists>e. fst (body (length (attempts st) + j) (clientAt API_KEYS st j) l) = Inl e \<and>
               retryable e"
    and "\<And>l. fst (body (length (attempts st) + k) (clientAt API_KEYS st k) l) = Inr v"
  shows "fst (withKeyRotation API_KEYS (request API_KEYS body) st) = Inr v \<and>
         currentKeyIndex (snd (withKeyRotation API_KEYS (request API_KEYS body) st)) =
           (currentKeyIndex st + k) mod length API_KEYS \<and>
         attempts (snd (withKeyRotation API_KEYS (request API_KEYS body) st)) =
           attempts st @ map (\<lambda>j. (currentKeyIndex st + j) mod length API_KEYS) [0..<Suc k] \<and>
         getClient API_KEYS (snd (withKeyRotation API_KEYS (request API_KEYS body) st)) =
           Inr (clientAt API_KEYS st k)"
proof -
  have N: "API_KEYS \<noteq> []" using assms(2) by auto
  have run: "fst (withKeyRotation_loop API_KEYS (request API_KEYS body) 0 st) = Inr v \<and>
         currentKeyIndex (snd (withKeyRotation_loop API_KEYS (request API_KEYS body) 0 st)) =
           (currentKeyIndex st + k) mod length API_KEYS \<and>
         attempts (snd (withKeyRotation_loop API_KEYS (request API_KEYS body) 0 st)) =
           attempts st @ map (\<lambda>j. (currentKeyIndex st + j) mod length API_KEYS) [0..<Suc k]"
    by (rule loop_run[OF assms(1)]) (use assms in \<open>simp_all add: final_def clientAt_def\<close>)
  then show ?thesis using N
    by (simp add: withKeyRotation_def getClient_def clientAt_def del: upt_Suc)
qed

text \<open>
  The pool \<open>[K1, K2, K3]\<close> with \<open>K1\<close> and \<open>K2\<close> rate-limited and \<open>K3\<close> returning \<open>OK\<close>:
  three attempts, the result is \<open>OK\<close>, the cursor ends on \<open>K3\<close>.
\<close>

theorem withKeyRotation_success_after_rotation_witness:
  "fst (withKeyRotation pool3 (request pool3 okUnderK3) (fresh ())) = Inr ''OK'' \<and>
   currentKeyIndex (snd (withKeyRotation pool3 (request pool3 okUnderK3) (fresh ()))) = 2 \<and>
   attempts (snd (withKeyRotation pool3 (request pool3 okUnderK3) (fresh ()))) = [0, 1, 2] \<and>
   getClient pool3 (snd (withKeyRotation pool3 (request pool3 okUnderK3) (fresh ()))) =
     Inr \<lparr>apiKey = Some ''K3''\<rparr>"
proof -
  have rl: "retryable rateLimitError"
    by (simp add: retryable_def is429Error_def rateLimitError_def)
  have 1: "currentKeyIndex (fresh ()) < length pool3" by (simp add: fresh_def pool3_def)
  have 2: "(2::nat) < length pool3" by (simp add: pool3_def)
  have 3: "\<exists>e. fst (okUnderK3 (length (attempts (fresh ())) + j) (clientAt pool3 (fresh ()) j) l)
                 = Inl e \<and> retryable e" if "j < 2" for j l
  proof -
    from that have "j = 0 \<or> j = 1" by auto
    then show ?thesis using rl by (auto simp: okUnderK3_def fresh_def pool3_def clientAt_def)
  qed
  have 4: "fst (okUnderK3 (length (attempts (fresh ())) + 2) (clientAt pool3 (fresh ()) 2) l)
             = Inr ''OK''" for l
    by (simp add: okUnderK3_def fresh_def pool3_def clientAt_def)
  show ?thesis
    using withKeyRotation_success_after_rotation[of "fresh ()" pool3 2 okUnderK3 "''OK''",
        OF 1 2 3 4]
    by (simp add: fresh_def pool3_def clientAt_def upt_rec)
qed

text \<open>
  C5, amended. The rate-limit class has five tests: the message contains \<open>429\<close>, the
  message contains \<open>RESOURCE_EXHAUSTED\<close>, or one of \<open>status\<close>, \<open>code\<close> and
  \<open>httpStatusCode\<close> equals 429. If the first \<open>k\<close> attempts of a call are rejected with
  errors of that class that are no cancellation, and the next attempt is rejected
  with an error named \<open>AbortError\<close> or with an error outside that class, the call
  rejects with this error after \<open>k + 1\<close> attempts: no attempt follows it, whatever
  keys are left. With \<open>k = 0\<close>: rethrown at the first attempt.
\<close>

theorem withKeyRotation_rethrows_other_errors:
  assumes "currentKeyIndex st < length API_KEYS" and "k < length API_KEYS"
    and "\<And>j l. j < k \<Longrightarrow>
           \<exists>e. fst (body (length (attempts st) + j) (clientAt API_KEYS st j) l) = Inl e \<and>
               retryable e"
    and "\<And>l. fst (body (length (attempts st) + k) (clientAt API_KEYS st k) l) = Inl err"
    and "name err = Some ''AbortError'' \<or>
         \<not> ((\<exists>m. message err = Some m \<and>
                 (str_includes m ''429'' \<or> str_includes m ''RESOURCE_EXHAUSTED'')) \<or>
            status err = Some 429 \<or> code err = Some 429 \<or> httpStatusCode err = Some 429)"
  shows "fst (withKeyRotation API_KEYS (request API_KEYS body) st) = Inl err \<and>
         currentKeyIndex (snd (withKeyRotation API_KEYS (request API_KEYS body) st)) =
           (currentKeyIndex st + k) mod length API_KEYS \<and>
         attempts (snd (withKeyRotation API_KEYS (request API_KEYS body) st)) =
           attempts st @ map (\<lambda>j. (currentKeyIndex st + j) mod length API_KEYS) [0..<Suc k]"
proof -
  have "\<not> retryable err" using assms(5) unfolding retryable_iff by blast
  then have fin: "final (Inl err :: jsError + 'b) \<or> 0 + k + 1 = length API_KEYS"
    by (simp add: final_def)
  have "fst (withKeyRotation_loop API_KEYS (request API_KEYS body) 0 st) = Inl err \<and>
         currentKeyIndex (snd (withKeyRotation_loop API_KEYS (request API_KEYS body) 0 st)) =
           (currentKeyIndex st + k) mod length API_KEYS \<and>
         attempts (snd (withKeyRotation_loop API_KEYS (request API_KEYS body) 0 st)) =
           attempts st @ map (\<lambda>j. (currentKeyIndex st + j) mod length API_KEYS) [0..<Suc k]"
    by (rule loop_run[OF assms(1)]) (use assms(2,3,4) fin in \<open>simp_all add: clientAt_def\<close>)
  then show ?thesis by (simp add: withKeyRotation_def del: upt_Suc)
qed

text \<open>A network error on the first attempt, with two keys configured: one attempt.\<close>

theorem withKeyRotation_rethrows_other_errors_witness:
  "fst (withKeyRotation pool2 (request pool2 (alwaysFails networkError)) (fresh ())) =
     Inl networkError \<and>
   currentKeyIndex
     (snd (withKeyRotation pool2 (request pool2 (alwaysFails networkError)) (fresh ()))) = 0 \<and>
   attempts
     (snd (withKeyRotation pool2 (request pool2 (alwaysFails networkError)) (fresh ()))) = [0]"
proof -
  have 1: "currentKeyIndex (fresh ()) < length pool2" by (simp add: fresh_def pool2_def)
  have 2: "(0::nat) < length pool2" by (simp add: pool2_def)
  have 3: "\<exists>e. fst (alwaysFails networkError (length (attempts (fresh ())) + j)
                   (clientAt pool2 (fresh ()) j) l) = Inl e \<and> retryable e" if "j < 0" for j l
    using that by simp
  have 4: "fst (alwaysFails networkError (length (attempts (fresh ())) + 0)
              (clientAt pool2 (fresh ()) 0) l) = Inl networkError" for l
    by (simp add: alwaysFails_def)
  have 5: "name networkError = Some ''AbortError'' \<or>
         \<not> ((\<exists>m. message networkError = Some m \<and>
                 (str_includes m ''429'' \<or> str_includes m ''RESOURCE_EXHAUSTED'')) \<or>
            status networkError = Some 429 \<or> code networkError = Some 429 \<or>
            httpStatusCode networkError = Some 429)"
    by (simp add: networkError_def)
  show ?thesis
    using withKeyRotation_rethrows_other_errors[of "fresh ()" pool2 0 "alwaysFails networkError"
        networkError, OF 1 2 3 4 5]
    by (simp add: fresh_def pool2_def)
qed

text \<open>
  C5 as stated lists the message and the \<open>status\<close> and \<open>code\<close> fields only. An error
  that is in none of these classes, and is no cancellation, is retried all the same
  when its \<open>httpStatusCode\<close> is 429: two attempts with two keys.
\<close>

theorem httpStatusCode_is_retried:
  "name httpStatusOnlyError \<noteq> Some ''AbortError'' \<and>
   message httpStatusOnlyError = Some ''Too Many Requests'' \<and>
   \<not> str_includes ''Too Many Requests'' ''429'' \<and>
   \<not> str_includes ''Too Many Requests'' ''RESOURCE_EXHAUSTED'' \<and>
   status httpStatusOnlyError \<noteq> Some 429 \<and>
   code httpStatusOnlyError \<noteq> Some 429 \<and>
   attempts (snd (withKeyRotation pool2 (request pool2 (alwaysFails httpStatusOnlyError))
                    (fresh ()))) = [0, 1]"
  by (simp add: withKeyRotation_def withKeyRotation_loop.simps request_def getClient_def
      attemptNo_def rotateKey_def pool2_def fresh_def alwaysFails_def httpStatusOnlyError_def
      is429Error_def Let_def)

text \<open>
  The same for a body that first asks the provider and hands a rejection on as it is:
  a call that reaches attempt \<open>k\<close> ends with the outcome of that attempt, when the
  outcome is final or the attempt is under the last key to try.
\<close>

lemma provider_run:
  assumes rl: "rateLimitedBefore K provider st k"
    and shape: "\<And>n ai l. body n ai l =
        (case provider n ai of Inl err \<Rightarrow> (Inl err, l) | Inr x \<Rightarrow> process n x l)"
    and out: "out = (case answerAt K provider st k of
                 Inl err \<Rightarrow> (Inl err, local st)
               | Inr x \<Rightarrow> process (length (attempts st) + k) x (local st))"
    and fin: "final (fst out) \<or> k + 1 = length K"
  shows "fst (withKeyRotation K (request K body) st) = fst out \<and>
         local (snd (withKeyRotation K (request K body) st)) = snd out \<and>
         currentKeyIndex (snd (withKeyRotation K (request K body) st)) =
           (currentKeyIndex st + k) mod length K \<and>
         attempts (snd (withKeyRotation K (request K body) st)) =
           attempts st @ map (\<lambda>j. (currentKeyIndex st + j) mod length K) [0..<Suc k]"
proof -
  have c: "currentKeyIndex st < length K" and k: "0 + k < length K"
    using rl by (simp_all add: rateLimitedBefore_def)
  have run: "fst (withKeyRotation_loop K (request K body) 0 st) = fst out \<and>
         currentKeyIndex (snd (withKeyRotation_loop K (request K body) 0 st)) =
           (currentKeyIndex st + k) mod length K \<and>
         attempts (snd (withKeyRotation_loop K (request K body) 0 st)) =
           attempts st @ map (\<lambda>j. (currentKeyIndex st + j) mod length K) [0..<Suc k] \<and>
         local (snd (withKeyRotation_loop K (request K body) 0 st)) = snd out"
  proof (rule loop_run_inv[where P = "\<lambda>l. l = local st" and Q = "\<lambda>l. l = snd out", OF c k])
    show "local st = local st" by simp
    show "\<exists>e. fst (body (length (attempts st) + j)
            \<lparr>apiKey = Some (K ! ((currentKeyIndex st + j) mod length K))\<rparr> l) = Inl e \<and> retryable e \<and>
            snd (body (length (attempts st) + j)
            \<lparr>apiKey = Some (K ! ((currentKeyIndex st + j) mod length K))\<rparr> l) = local st"
      if "j < k" "l = local st" for j l
    proof -
      from rl that(1) have "case answerAt K provider st j of Inl err \<Rightarrow> retryable err | Inr r \<Rightarrow> False"
        by (simp add: rateLimitedBefore_def)
      then obtain e where "answerAt K provider st j = Inl e" "retryable e"
        by (cases "answerAt K provider st j") auto
      then show ?thesis using that(2) by (simp add: shape answerAt_def clientAt_def)
    qed
    show "fst (body (length (attempts st) + k)
            \<lparr>apiKey = Some (K ! ((currentKeyIndex st + k) mod length K))\<rparr> l) = fst out \<and>
          snd (body (length (attempts st) + k)
            \<lparr>apiKey = Some (K ! ((currentKeyIndex st + k) mod length K))\<rparr> l) = snd out"
      if "l = local st" for l
      using that by (simp add: shape out answerAt_def clientAt_def split: sum.splits)
    show "final (fst out) \<or> 0 + k + 1 = length K" using fin by simp
  qed
  then show ?thesis by (simp add: withKeyRotation_def del: upt_Suc)
qed

text \<open>
  The course of one call again, with a condition on the local state that may depend
  on the number of the attempt: \<open>P j\<close> holds before attempt \<open>j\<close>.
\<close>

lemma loop_run_at:
  assumes "currentKeyIndex st < length K" and "t + k < length K" and "P 0 (local st)"
    and "\<And>j l. j < k \<Longrightarrow> P j l \<Longrightarrow> \<exists>e. fst (body (length (attempts st) + j)
            \<lparr>apiKey = Some (K ! ((currentKeyIndex st + j) mod length K))\<rparr> l) = Inl e \<and> retryable e \<and>
            P (Suc j) (snd (body (length (attempts st) + j)
            \<lparr>apiKey = Some (K ! ((currentKeyIndex st + j) mod length K))\<rparr> l))"
    and "\<And>l. P k l \<Longrightarrow> fst (body (length (attempts st) + k)
            \<lparr>apiKey = Some (K ! ((currentKeyIndex st + k) mod length K))\<rparr> l) = r \<and>
          Q (snd (body (length (attempts st) + k)
            \<lparr>apiKey = Some (K ! ((currentKeyIndex st + k) mod length K))\<rparr> l))"
    and "final r \<or> t + k + 1 = length K"
  shows "fst (withKeyRotation_loop K (request K body) t st) = r \<and>
         Q (local (snd (withKeyRotation_loop K (request K body) t st)))"
  using assms
proof (induction k arbitrary: t st P)
  case 0
  let ?b = "body (length (attempts st)) \<lparr>apiKey = Some (K ! currentKeyIndex st)\<rparr> (local st)"
  have r: "fst ?b = r" "Q (snd ?b)" using "0.prems"(5)[of "local st"] "0.prems"(1,3) by simp_all
  have t: "t < length K" using "0.prems"(2) by simp
  show ?case
  proof (cases r)
    case (Inr v)
    then show ?thesis using r t "0.prems"(1)
      by (subst (1 2) withKeyRotation_loop.simps) (simp add: request_logged)
  next
    case (Inl e)
    then have "\<not> retryable e \<or> \<not> t + 1 < length K"
      using "0.prems"(6) by (auto simp: final_def)
    then show ?thesis using r t "0.prems"(1) Inl
      by (subst (1 2) withKeyRotation_loop.simps) (auto simp add: request_logged retryable_def)
  qed
next
  case (Suc k)
  let ?N = "length K"
  let ?c = "currentKeyIndex st"
  let ?b = "body (length (attempts st)) \<lparr>apiKey = Some (K ! ?c)\<rparr> (local st)"
  obtain e where e: "fst ?b = Inl e" "retryable e" "P (Suc 0) (snd ?b)"
    using Suc.prems(4)[of 0 "local st"] Suc.prems(1,3) by auto
  have t: "t < ?N" "t + 1 < ?N" "2 \<le> ?N" using Suc.prems(2) by simp_all
  let ?st1 = "st\<lparr>attempts := attempts st @ [?c], local := snd ?b\<rparr>"
  let ?st2 = "?st1\<lparr>currentKeyIndex := Suc ?c mod ?N\<rparr>"
  have unfold: "withKeyRotation_loop K (request K body) t st =
          withKeyRotation_loop K (request K body) (t + 1) ?st2"
    using e t Suc.prems(1)
    by (subst withKeyRotation_loop.simps) (simp add: request_logged retryable_def rotateKey_two)
  have "0 < ?N" using t(1) by (cases K) simp_all
  then have c2: "currentKeyIndex ?st2 < ?N" by simp
  have idx: "\<And>j. (Suc ?c mod ?N + j) mod ?N = Suc (?c + j) mod ?N"
    by (simp add: mod_add_left_eq)
  have IH: "fst (withKeyRotation_loop K (request K body) (t + 1) ?st2) = r \<and>
         Q (local (snd (withKeyRotation_loop K (request K body) (t + 1) ?st2)))"
  proof (rule Suc.IH[OF c2, where P = "\<lambda>j. P (Suc j)"])
    show "t + 1 + k < ?N" using Suc.prems(2) by simp
    show "P (Suc 0) (local ?st2)" using e(3) by simp
    show "\<exists>e. fst (body (length (attempts ?st2) + j)
            \<lparr>apiKey = Some (K ! ((currentKeyIndex ?st2 + j) mod ?N))\<rparr> l) = Inl e \<and> retryable e \<and>
            P (Suc (Suc j)) (snd (body (length (attempts ?st2) + j)
            \<lparr>apiKey = Some (K ! ((currentKeyIndex ?st2 + j) mod ?N))\<rparr> l))"
      if "j < k" "P (Suc j) l" for j l
      using Suc.prems(4)[of "Suc j" l] that by (simp add: idx)
    show "fst (body (length (attempts ?st2) + k)
            \<lparr>apiKey = Some (K ! ((currentKeyIndex ?st2 + k) mod ?N))\<rparr> l) = r \<and>
          Q (snd (body (length (attempts ?st2) + k)
            \<lparr>apiKey = Some (K ! ((currentKeyIndex ?st2 + k) mod ?N))\<rparr> l))" if "P (Suc k) l" for l
      using Suc.prems(5)[of l] that by (simp add: idx)
    show "final r \<or> t + 1 + k + 1 = ?N" using Suc.prems(6) by simp
  qed
  show ?case unfolding unfold using IH by simp
qed

section \<open>Properties of the streaming operations\<close>

text \<open>Without cancellation the loop hands every fragment that has text to the sink,
  in order, and ends as the stream ends.\<close>

lemma forAwait_never_aborted:
  "(\<And>j. \<not> flag j) \<Longrightarrow> forAwait flag i frags fail sink =
     ((case fail of None \<Rightarrow> Inr () | Some err \<Rightarrow> Inl err), sink @ map the (filter truthy frags))"
  by (induction frags arbitrary: i sink) (auto simp: onChunk_def split: option.splits)

lemma concat_truthy:
  "concat (map the (filter truthy frags)) =
     concat (map (\<lambda>chunk. case chunk of None \<Rightarrow> [] | Some s \<Rightarrow> s) frags)"
  by (induction frags) (auto simp: truthy_def split: option.splits)

lemma forAwaitCollect_never_aborted:
  "(\<And>j. \<not> flag j) \<Longrightarrow> forAwaitCollect flag i frags fail l =
     ((case fail of None \<Rightarrow> Inr () | Some err \<Rightarrow> Inl err),
      (fst l @ concat (map the (filter truthy frags)), snd l @ map the (filter truthy frags)))"
  by (induction frags arbitrary: i l) (auto simp: onChunk_def split: option.splits)

text \<open>
  So an attempt of a call that is never cancelled ends as \<open>outcomeOf\<close> says and
  appends \<open>chunksOf\<close> to the sink; in \<^verbatim>\<open>analyzeJudgment\<close> it appends \<open>textOf\<close> to
  \<^verbatim>\<open>fullResponse\<close> as well.
\<close>

lemma streamBody_never_aborted:
  assumes "\<And>n i. \<not> aborted abortSignal n i"
  shows "streamBody provider abortSignal n ai l =
           (outcomeOf (provider n ai), l @ chunksOf (provider n ai))"
  using assms
  by (simp add: streamBody_def outcomeOf_def chunksOf_def forAwait_never_aborted
      split: sum.splits option.splits)

lemma caseStudyBody_never_aborted:
  assumes "\<And>n i. \<not> aborted abortSignal n i"
  shows "caseStudyBody provider abortSignal n ai l =
           (outcomeOf (provider n ai), l @ chunksOf (provider n ai))"
  using assms
  by (simp add: caseStudyBody_def outcomeOf_def chunksOf_def forAwait_never_aborted
      split: sum.splits option.splits)

lemma judgmentBody_never_aborted:
  assumes "\<And>n i. \<not> aborted abortSignal n i"
  shows "judgmentBody provider abortSignal n ai l =
           (outcomeOf (provider n ai),
            (fst l @ textOf (provider n ai), snd l @ chunksOf (provider n ai)))"
  using assms
  by (simp add: judgmentBody_def outcomeOf_def chunksOf_def textOf_def responseText_def
      forAwaitCollect_never_aborted concat_truthy split: sum.splits option.splits)

text \<open>
  An attempt that is retried quietly is rejected with a retryable error and leaves
  sink and \<^verbatim>\<open>fullResponse\<close> as they were; an attempt that ends the call is not
  retried.
\<close>

lemma retriedQuietly_facts:
  assumes "retriedQuietly a"
  shows "\<exists>e. outcomeOf a = Inl e \<and> retryable e" and "chunksOf a = []" and "textOf a = []"
proof -
  show "\<exists>e. outcomeOf a = Inl e \<and> retryable e"
    using assms by (auto simp: retriedQuietly_def outcomeOf_def split: sum.splits option.splits)
  show c: "chunksOf a = []"
    using assms by (auto simp: retriedQuietly_def chunksOf_def split: sum.splits)
  have "textOf a = concat (chunksOf a)"
    by (simp add: textOf_def chunksOf_def responseText_def concat_truthy split: sum.splits)
  with c show "textOf a = []" by simp
qed

lemma endsCall_final:
  "endsCall K k a \<Longrightarrow> final (outcomeOf a) \<or> k + 1 = length K"
  by (auto simp: endsCall_def final_def outcomeOf_def split: sum.splits option.splits)

lemma concat_chunksOf: "concat (chunksOf a) = textOf a"
  by (simp add: textOf_def chunksOf_def responseText_def concat_truthy split: sum.splits)

text \<open>
  The course of a call whose first \<open>k\<close> attempts are retried quietly and whose next
  attempt ends it: the outcome is that of attempt \<open>k\<close>, and the local state is what
  that attempt alone makes of the initial one.
\<close>

lemma quiet_run:
  assumes q: "quietBefore K provider st k"
    and e: "endsCall K k (answerAt K provider st k)"
    and shape: "\<And>n ai l. body n ai l = (outcomeOf (provider n ai), upd (provider n ai) l)"
    and idle: "\<And>a l. retriedQuietly a \<Longrightarrow> upd a l = l"
  shows "fst (withKeyRotation K (request K body) st) = outcomeOf (answerAt K provider st k) \<and>
         local (snd (withKeyRotation K (request K body) st)) =
           upd (answerAt K provider st k) (local st) \<and>
         currentKeyIndex (snd (withKeyRotation K (request K body) st)) =
           (currentKeyIndex st + k) mod length K \<and>
         attempts (snd (withKeyRotation K (request K body) st)) =
           attempts st @ map (\<lambda>j. (currentKeyIndex st + j) mod length K) [0..<Suc k]"
proof -
  let ?a = "answerAt K provider st k"
  have c: "currentKeyIndex st < length K" and k: "0 + k < length K"
    using q by (simp_all add: quietBefore_def)
  have run: "fst (withKeyRotation_loop K (request K body) 0 st) = outcomeOf ?a \<and>
         currentKeyIndex (snd (withKeyRotation_loop K (request K body) 0 st)) =
           (currentKeyIndex st + k) mod length K \<and>
         attempts (snd (withKeyRotation_loop K (request K body) 0 st)) =
           attempts st @ map (\<lambda>j. (currentKeyIndex st + j) mod length K) [0..<Suc k] \<and>
         local (snd (withKeyRotation_loop K (request K body) 0 st)) = upd ?a (local st)"
  proof (rule loop_run_inv[where P = "\<lambda>l. l = local st" and Q = "\<lambda>l. l = upd ?a (local st)",
        OF c k])
    show "local st = local st" by simp
    show "\<exists>e. fst (body (length (attempts st) + j)
            \<lparr>apiKey = Some (K ! ((currentKeyIndex st + j) mod length K))\<rparr> l) = Inl e \<and> retryable e \<and>
            snd (body (length (attempts st) + j)
            \<lparr>apiKey = Some (K ! ((currentKeyIndex st + j) mod length K))\<rparr> l) = local st"
      if "j < k" "l = local st" for j l
    proof -
      from q that(1) have r: "retriedQuietly (answerAt K provider st j)"
        by (simp add: quietBefore_def)
      from retriedQuietly_facts(1)[OF r] idle[OF r, of l] that(2)
      show ?thesis by (simp add: shape answerAt_def clientAt_def)
    qed
    show "fst (body (length (attempts st) + k)
            \<lparr>apiKey = Some (K ! ((currentKeyIndex st + k) mod length K))\<rparr> l) = outcomeOf ?a \<and>
          snd (body (length (attempts st) + k)
            \<lparr>apiKey = Some (K ! ((currentKeyIndex st + k) mod length K))\<rparr> l) = upd ?a (local st)"
      if "l = local st" for l
      using that by (simp add: shape answerAt_def clientAt_def)
    show "final (outcomeOf ?a) \<or> 0 + k + 1 = length K" using endsCall_final[OF e] by simp
  qed
  then show ?thesis by (simp add: withKeyRotation_def del: upt_Suc)
qed


lemma quiet_state:
  "quietBefore K provider \<lparr>currentKeyIndex = currentKeyIndex st, attempts = attempts st, local = l\<rparr> k =
     quietBefore K provider st k"
  "answerAt K provider \<lparr>currentKeyIndex = currentKeyIndex st, attempts = attempts st, local = l\<rparr> k =
     answerAt K provider st k"
  by (simp_all add: quietBefore_def answerAt_def clientAt_def)

lemma stream_run:
  assumes "quietBefore K provider st k"
    and "endsCall K k (answerAt K provider st k)"
    and "\<And>n ai l. body n ai l = (outcomeOf (provider n ai), l @ chunksOf (provider n ai))"
  shows "withKeyRotation K (request K body) st =
           (outcomeOf (answerAt K provider st k),
            snd (withKeyRotation K (request K body) st)) \<and>
         local (snd (withKeyRotation K (request K body) st)) =
           local st @ chunksOf (answerAt K provider st k)"
proof -
  have "fst (withKeyRotation K (request K body) st) = outcomeOf (answerAt K provider st k) \<and>
        local (snd (withKeyRotation K (request K body) st)) =
          local st @ chunksOf (answerAt K provider st k)"
    using quiet_run[OF assms(1,2), where body = body and upd = "\<lambda>a l. l @ chunksOf a"]
      assms(3) retriedQuietly_facts(2) by simp
  then show ?thesis by (simp add: prod_eq_iff)
qed

text \<open>
  For the streaming operations: such a call ends as its last attempt ends, and the
  sink receives the chunks of that attempt and no others.
\<close>

lemma streaming_run:
  assumes "quietBefore API_KEYS provider st k"
    and "endsCall API_KEYS k (answerAt API_KEYS provider st k)"
    and "\<And>n i. \<not> aborted abortSignal n i"
  shows "fst (streamChatResponse API_KEYS provider abortSignal st) =
           outcomeOf (answerAt API_KEYS provider st k)"
    and "local (snd (streamChatResponse API_KEYS provider abortSignal st)) =
           local st @ chunksOf (answerAt API_KEYS provider st k)"
    and "fst (snapAndSolve API_KEYS provider abortSignal st) =
           outcomeOf (answerAt API_KEYS provider st k)"
    and "local (snd (snapAndSolve API_KEYS provider abortSignal st)) =
           local st @ chunksOf (answerAt API_KEYS provider st k)"
    and "fst (generateCaseStudy API_KEYS provider abortSignal st) =
           outcomeOf (answerAt API_KEYS provider st k)"
    and "local (snd (generateCaseStudy API_KEYS provider abortSignal st)) =
           local st @ chunksOf (answerAt API_KEYS provider st k)"
proof -
  note s = stream_run[OF assms(1,2), of "streamBody provider abortSignal",
      OF streamBody_never_aborted[OF assms(3)]]
  note c = stream_run[OF assms(1,2), of "caseStudyBody provider abortSignal",
      OF caseStudyBody_never_aborted[OF assms(3)]]
  show "fst (streamChatResponse API_KEYS provider abortSignal st) =
           outcomeOf (answerAt API_KEYS provider st k)"
    unfolding streamChatResponse_def by (subst s[THEN conjunct1]) (simp split: sum.splits)
  show "local (snd (streamChatResponse API_KEYS provider abortSignal st)) =
           local st @ chunksOf (answerAt API_KEYS provider st k)"
    unfolding streamChatResponse_def
    by (subst s[THEN conjunct1]) (simp add: s[THEN conjunct2] split: sum.splits)
  show "fst (snapAndSolve API_KEYS provider abortSignal st) =
           outcomeOf (answerAt API_KEYS provider st k)"
    unfolding snapAndSolve_def by (subst s[THEN conjunct1]) (simp split: sum.splits)
  show "local (snd (snapAndSolve API_KEYS provider abortSignal st)) =
           local st @ chunksOf (answerAt API_KEYS provider st k)"
    unfolding snapAndSolve_def
    by (subst s[THEN conjunct1]) (simp add: s[THEN conjunct2] split: sum.splits)
  show "fst (generateCaseStudy API_KEYS provider abortSignal st) =
           outcomeOf (answerAt API_KEYS provider st k)"
    unfolding generateCaseStudy_def by (subst c[THEN conjunct1]) (simp split: sum.splits)
  show "local (snd (generateCaseStudy API_KEYS provider abortSignal st)) =
           local st @ chunksOf (answerAt API_KEYS provider st k)"
    unfolding generateCaseStudy_def
    by (subst c[THEN conjunct1]) (simp add: c[THEN conjunct2] split: sum.splits)
qed

lemma analyzeJudgment_run:
  assumes "quietBefore API_KEYS provider st k"
    and "endsCall API_KEYS k (answerAt API_KEYS provider st k)"
    and "\<And>n i. \<not> aborted abortSignal n i"
  shows "fst (analyzeJudgment JSON_parse API_KEYS provider abortSignal st) =
           (case outcomeOf (answerAt API_KEYS provider st k) of
              Inl err \<Rightarrow> Inl err
            | Inr u \<Rightarrow> Inr (parseAnalysis JSON_parse (textOf (answerAt API_KEYS provider st k))))"
    and "local (snd (analyzeJudgment JSON_parse API_KEYS provider abortSignal st)) =
           local st @ chunksOf (answerAt API_KEYS provider st k)"
proof -
  let ?st0 = "\<lparr>currentKeyIndex = currentKeyIndex st, attempts = attempts st,
               local = ([], local st)\<rparr> :: (string \<times> string list) state"
  let ?body = "judgmentBody provider abortSignal"
  let ?a = "answerAt API_KEYS provider st k"
  have q: "quietBefore API_KEYS provider ?st0 k" using assms(1) by (simp only: quiet_state)
  have e: "endsCall API_KEYS k (answerAt API_KEYS provider ?st0 k)"
    using assms(2) by (simp only: quiet_state)
  have idle: "(fst l @ textOf a, snd l @ chunksOf a) = l" if "retriedQuietly a"
    for a and l :: "string \<times> string list"
    using retriedQuietly_facts(2,3)[OF that] by simp
  have run: "fst (withKeyRotation API_KEYS (request API_KEYS ?body) ?st0) = outcomeOf ?a \<and>
         local (snd (withKeyRotation API_KEYS (request API_KEYS ?body) ?st0)) =
           (textOf ?a, local st @ chunksOf ?a)"
    using quiet_run[OF q e, where body = ?body
        and upd = "\<lambda>a l. (fst l @ textOf a, snd l @ chunksOf a)",
        OF judgmentBody_never_aborted[OF assms(3)] idle]
    by (simp add: quiet_state)
  obtain r' st' where eq:
    "withKeyRotation API_KEYS (request API_KEYS ?body) ?st0 = (r', st')"
    by (cases "withKeyRotation API_KEYS (request API_KEYS ?body) ?st0")
  with run have r: "r' = outcomeOf ?a" "fst (local st') = textOf ?a"
    "snd (local st') = local st @ chunksOf ?a" by simp_all
  show "fst (analyzeJudgment JSON_parse API_KEYS provider abortSignal st) =
           (case outcomeOf ?a of
              Inl err \<Rightarrow> Inl err
            | Inr u \<Rightarrow> Inr (parseAnalysis JSON_parse (textOf ?a)))"
    using eq r by (simp add: analyzeJudgment_def split: sum.splits)
  show "local (snd (analyzeJudgment JSON_parse API_KEYS provider abortSignal st)) =
           local st @ chunksOf ?a"
    using eq r by (simp add: analyzeJudgment_def split: sum.splits)
qed

text \<open>
  Every call from a valid cursor has an attempt that ends it, under the last key to
  try at the latest; before it, either every attempt was retried quietly, or an
  attempt that was retried had delivered a chunk.
\<close>

lemma endsCall_last: "k + 1 = length K \<Longrightarrow> endsCall K k a"
  by (simp add: endsCall_def split: sum.splits option.splits)

lemma not_endsCall_retried:
  assumes "\<not> endsCall K j a" and "chunksOf a = []"
  shows "retriedQuietly a"
  using assms
  by (auto simp: endsCall_def retriedQuietly_def chunksOf_def split: sum.splits option.splits)

lemma call_course:
  assumes "currentKeyIndex st < length K"
  shows "\<exists>k<length K. endsCall K k (answerAt K provider st k) \<and>
             (\<forall>j<k. \<not> endsCall K j (answerAt K provider st j)) \<and>
             (quietBefore K provider st k \<or>
              (\<exists>j<k. chunksOf (answerAt K provider st j) \<noteq> []))"
proof -
  let ?P = "\<lambda>k. endsCall K k (answerAt K provider st k)"
  define k where "k = (LEAST k. ?P k)"
  have "length K - 1 + 1 = length K" using assms by simp
  then have last: "?P (length K - 1)" by (rule endsCall_last)
  then have Pk: "?P k" unfolding k_def by (rule LeastI)
  have "k \<le> length K - 1" unfolding k_def using last by (rule Least_le)
  then have kl: "k < length K" using assms by simp
  have before: "\<not> ?P j" if "j < k" for j
    using that unfolding k_def by (rule not_less_Least)
  show ?thesis
  proof (cases "\<forall>j<k. chunksOf (answerAt K provider st j) = []")
    case True
    have "retriedQuietly (answerAt K provider st j)" if "j < k" for j
      using before[OF that] True that by (intro not_endsCall_retried[of K j]) simp_all
    then have "\<forall>j\<in>{..<k}. retriedQuietly (answerAt K provider st j)" by simp
    then have "quietBefore K provider st k" using assms kl by (simp add: quietBefore_def)
    with Pk kl before show ?thesis by blast
  next
    case False
    with before Pk kl show ?thesis by blast
  qed
qed

text \<open>
  The sink of a call that is never cancelled holds the chunks of all its attempts,
  the retried ones included. \<open>sink\<close> reads the sink in the local state.
\<close>

lemma all_chunks_run:
  assumes c: "currentKeyIndex st < length K" and k: "k < length K"
    and retried: "\<And>j. j < k \<Longrightarrow> \<not> endsCall K j (answerAt K provider st j)"
    and e: "endsCall K k (answerAt K provider st k)"
    and shape: "\<And>n ai l. fst (body n ai l) = outcomeOf (provider n ai) \<and>
                  sink (snd (body n ai l)) = sink l @ chunksOf (provider n ai)"
  shows "sink (local (snd (withKeyRotation K (request K body) st))) =
           sink (local st) @
           concat (map (\<lambda>j. chunksOf (answerAt K provider st j)) [0..<Suc k])"
proof -
  let ?sofar = "\<lambda>j. sink (local st) @
      concat (map (\<lambda>j. chunksOf (answerAt K provider st j)) [0..<j])"
  have k0: "0 + k < length K" using k by simp
  have "fst (withKeyRotation_loop K (request K body) 0 st) = outcomeOf (answerAt K provider st k) \<and>
        sink (local (snd (withKeyRotation_loop K (request K body) 0 st))) = ?sofar (Suc k)"
  proof (rule loop_run_at[where P = "\<lambda>j l. sink l = ?sofar j"
        and Q = "\<lambda>l. sink l = ?sofar (Suc k)", OF c k0])
    show "sink (local st) = ?sofar 0" by simp
    show "\<exists>e. fst (body (length (attempts st) + j)
            \<lparr>apiKey = Some (K ! ((currentKeyIndex st + j) mod length K))\<rparr> l) = Inl e \<and> retryable e \<and>
            sink (snd (body (length (attempts st) + j)
            \<lparr>apiKey = Some (K ! ((currentKeyIndex st + j) mod length K))\<rparr> l)) = ?sofar (Suc j)"
      if "j < k" "sink l = ?sofar j" for j l
    proof -
      from retried[OF that(1)]
      have "\<exists>e. outcomeOf (answerAt K provider st j) = Inl e \<and> retryable e"
        by (auto simp: endsCall_def outcomeOf_def split: sum.splits option.splits)
      then show ?thesis using that(2) by (simp add: shape answerAt_def clientAt_def)
    qed
    show "fst (body (length (attempts st) + k)
            \<lparr>apiKey = Some (K ! ((currentKeyIndex st + k) mod length K))\<rparr> l) =
            outcomeOf (answerAt K provider st k) \<and>
          sink (snd (body (length (attempts st) + k)
            \<lparr>apiKey = Some (K ! ((currentKeyIndex st + k) mod length K))\<rparr> l)) = ?sofar (Suc k)"
      if "sink l = ?sofar k" for l
      using that by (simp add: shape answerAt_def clientAt_def)
    show "final (outcomeOf (answerAt K provider st k)) \<or> 0 + k + 1 = length K"
      using e by (auto simp: endsCall_def final_def outcomeOf_def split: sum.splits option.splits)
  qed
  then show ?thesis by (simp add: withKeyRotation_def del: upt_Suc)
qed

lemma streaming_all_chunks:
  assumes "currentKeyIndex st < length API_KEYS" and "k < length API_KEYS"
    and "\<And>j. j < k \<Longrightarrow> \<not> endsCall API_KEYS j (answerAt API_KEYS provider st j)"
    and "endsCall API_KEYS k (answerAt API_KEYS provider st k)"
    and "\<And>n i. \<not> aborted abortSignal n i"
  shows "local (snd (streamChatResponse API_KEYS provider abortSignal st)) =
           local st @ concat (map (\<lambda>j. chunksOf (answerAt API_KEYS provider st j)) [0..<Suc k])"
    and "local (snd (snapAndSolve API_KEYS provider abortSignal st)) =
           local st @ concat (map (\<lambda>j. chunksOf (answerAt API_KEYS provider st j)) [0..<Suc k])"
    and "local (snd (generateCaseStudy API_KEYS provider abortSignal st)) =
           local st @ concat (map (\<lambda>j. chunksOf (answerAt API_KEYS provider st j)) [0..<Suc k])"
    and "local (snd (analyzeJudgment JSON_parse API_KEYS provider abortSignal st)) =
           local st @ concat (map (\<lambda>j. chunksOf (answerAt API_KEYS provider st j)) [0..<Suc k])"
proof -
  let ?all = "concat (map (\<lambda>j. chunksOf (answerAt API_KEYS provider st j)) [0..<Suc k])"
  let ?st0 = "\<lparr>currentKeyIndex = currentKeyIndex st, attempts = attempts st,
               local = ([], local st)\<rparr> :: (string \<times> string list) state"
  have s: "local (snd (withKeyRotation API_KEYS
               (request API_KEYS (streamBody provider abortSignal)) st)) = local st @ ?all"
    by (rule all_chunks_run[OF assms(1-4), where sink = "\<lambda>l. l"])
       (simp_all add: streamBody_never_aborted[OF assms(5)])
  have c: "local (snd (withKeyRotation API_KEYS
               (request API_KEYS (caseStudyBody provider abortSignal)) st)) = local st @ ?all"
    by (rule all_chunks_run[OF assms(1-4), where sink = "\<lambda>l. l"])
       (simp_all add: caseStudyBody_never_aborted[OF assms(5)])
  have "snd (local (snd (withKeyRotation API_KEYS
               (request API_KEYS (judgmentBody provider abortSignal)) ?st0))) =
          snd (local ?st0) @
          concat (map (\<lambda>j. chunksOf (answerAt API_KEYS provider ?st0 j)) [0..<Suc k])"
    by (rule all_chunks_run[where sink = snd])
       (use assms(1-4) in \<open>simp_all add: quiet_state judgmentBody_never_aborted[OF assms(5)]\<close>)
  then have j: "snd (local (snd (withKeyRotation API_KEYS
               (request API_KEYS (judgmentBody provider abortSignal)) ?st0))) = local st @ ?all"
    by (simp add: quiet_state del: upt_Suc)
  show "local (snd (streamChatResponse API_KEYS provider abortSignal st)) = local st @ ?all"
    using s
    by (cases "withKeyRotation API_KEYS (request API_KEYS (streamBody provider abortSignal)) st")
       (simp add: streamChatResponse_def split: sum.splits)
  show "local (snd (snapAndSolve API_KEYS provider abortSignal st)) = local st @ ?all"
    using s
    by (cases "withKeyRotation API_KEYS (request API_KEYS (streamBody provider abortSignal)) st")
       (simp add: snapAndSolve_def split: sum.splits)
  show "local (snd (generateCaseStudy API_KEYS provider abortSignal st)) = local st @ ?all"
    using c
    by (cases "withKeyRotation API_KEYS (request API_KEYS (caseStudyBody provider abortSignal)) st")
       (simp add: generateCaseStudy_def split: sum.splits)
  show "local (snd (analyzeJudgment JSON_parse API_KEYS provider abortSignal st)) = local st @ ?all"
    using j
    by (cases "withKeyRotation API_KEYS (request API_KEYS (judgmentBody provider abortSignal)) ?st0")
       (simp add: analyzeJudgment_def split: sum.splits)
qed

lemma chunksOf_nonempty: "c \<in> set (chunksOf a) \<Longrightarrow> c \<noteq> []"
  by (auto simp: chunksOf_def truthy_def split: sum.splits option.splits)

text \<open>
  So when an attempt that is retried has delivered a chunk, the concatenation of
  what the call delivers is not the text of the attempt that ends it.
\<close>

lemma retried_chunk_breaks_text:
  assumes "j < k" and "chunksOf (answer j) \<noteq> []"
  shows "concat (concat (map (\<lambda>j. chunksOf (answer j)) [0..<Suc k])) \<noteq> textOf (answer k)"
proof -
  obtain c cs where c: "chunksOf (answer j) = c # cs"
    using assms(2) by (cases "chunksOf (answer j)") auto
  then have "c \<in> set (chunksOf (answer j))" by simp
  then have ne: "c \<noteq> []" by (rule chunksOf_nonempty)
  have "j \<in> set [0..<k]" using assms(1) by simp
  then have "c \<in> set (concat (map (\<lambda>j. chunksOf (answer j)) [0..<k]))"
    using c by (auto intro!: bexI[of _ j])
  then have "concat (concat (map (\<lambda>j. chunksOf (answer j)) [0..<k])) \<noteq> []"
    using ne by auto
  then show ?thesis by (simp add: concat_chunksOf)
qed

text \<open>
  C2. The signal is set before the call, the provider's stream holds two fragments:
  the loop is left at the first fragment, nothing reaches the sink, and the
  operation resolves. It does not reject, with a cancellation or otherwise. The
  same for \<^verbatim>\<open>snapAndSolve\<close>.
\<close>

theorem streamChatResponse_aborted_resolves:
  "streamChatResponse pool2 helloProvider alreadyAborted (fresh []) =
     (Inr (), \<lparr>currentKeyIndex = 0, attempts = [0], local = []\<rparr>) \<and>
   snapAndSolve pool2 helloProvider alreadyAborted (fresh []) =
     (Inr (), \<lparr>currentKeyIndex = 0, attempts = [0], local = []\<rparr>)"
  by (simp add: streamChatResponse_def snapAndSolve_def withKeyRotation_def
      withKeyRotation_loop.simps request_def getClient_def attemptNo_def pool2_def fresh_def
      streamBody_def helloProvider_def hello_def alreadyAborted_def aborted_def)

text \<open>
  On the same input \<^verbatim>\<open>generateCaseStudy\<close>, which tests the flag before it opens the
  stream, rejects with the cancellation error.
\<close>

lemma generateCaseStudy_aborted_rejects:
  "generateCaseStudy pool2 helloProvider alreadyAborted (fresh []) =
     (Inl abortError, \<lparr>currentKeyIndex = 0, attempts = [0], local = []\<rparr>)"
  by (simp add: generateCaseStudy_def withKeyRotation_def withKeyRotation_loop.simps request_def
      getClient_def attemptNo_def pool2_def fresh_def caseStudyBody_def alreadyAborted_def
      aborted_def abortError_def)

text \<open>
  What \<^verbatim>\<open>streamChatResponse\<close> does there, for every call served at its first attempt
  by a stream that holds a fragment, when the flag is set by the time that fragment
  arrives.
\<close>

lemma streamChatResponse_aborted_at_first_fragment:
  assumes "rateLimitedBefore API_KEYS provider st 0"
    and "answerAt API_KEYS provider st 0 = Inr response"
    and "fragments response \<noteq> []"
    and "aborted abortSignal (length (attempts st)) 0"
  shows "fst (streamChatResponse API_KEYS provider abortSignal st) = Inr () \<and>
         local (snd (streamChatResponse API_KEYS provider abortSignal st)) = local st"
proof -
  let ?body = "streamBody provider abortSignal"
  let ?out = "(Inr () :: jsError + unit, local st)"
  have run: "fst (withKeyRotation API_KEYS (request API_KEYS ?body) st) = fst ?out \<and>
         local (snd (withKeyRotation API_KEYS (request API_KEYS ?body) st)) = snd ?out \<and>
         currentKeyIndex (snd (withKeyRotation API_KEYS (request API_KEYS ?body) st)) =
           (currentKeyIndex st + 0) mod length API_KEYS \<and>
         attempts (snd (withKeyRotation API_KEYS (request API_KEYS ?body) st)) =
           attempts st @ map (\<lambda>j. (currentKeyIndex st + j) mod length API_KEYS) [0..<Suc 0]"
  proof (rule provider_run[OF assms(1), where process =
      "\<lambda>n response l. forAwait (aborted abortSignal n) 0 (fragments response) (failure response) l"])
    show "?body n ai l = (case provider n ai of Inl err \<Rightarrow> (Inl err, l)
        | Inr response \<Rightarrow>
            forAwait (aborted abortSignal n) 0 (fragments response) (failure response) l)"
      for n ai l by (simp add: streamBody_def)
    show "?out = (case answerAt API_KEYS provider st 0 of
                 Inl err \<Rightarrow> (Inl err, local st)
               | Inr response \<Rightarrow> forAwait (aborted abortSignal (length (attempts st) + 0)) 0
                    (fragments response) (failure response) (local st))"
      using assms(2,3,4) by (cases "fragments response") simp_all
    show "final (fst ?out) \<or> 0 + 1 = length API_KEYS" by (simp add: final_def)
  qed
  obtain r' st' where eq:
    "withKeyRotation API_KEYS (request API_KEYS ?body) st = (r', st')"
    by (cases "withKeyRotation API_KEYS (request API_KEYS ?body) st")
  with run have "r' = Inr ()" "local st' = local st" by simp_all
  then show ?thesis using eq by (simp add: streamChatResponse_def)
qed

text \<open>
  C6, amended. A call that is never cancelled, in which no attempt that was retried
  had delivered a chunk (each of the first \<open>k\<close> attempts was rejected with a
  rate-limit error at the request, or its stream broke with one before any fragment
  with text), and whose attempt \<open>k\<close> ends the call (its stream runs to the end or
  breaks with an error that is not retried, or the request is rejected with such an
  error). For each of the four streaming operations, \<^verbatim>\<open>streamChatResponse\<close>,
  \<^verbatim>\<open>snapAndSolve\<close>, \<^verbatim>\<open>generateCaseStudy\<close> and \<^verbatim>\<open>analyzeJudgment\<close>, the chunks
  appended to the sink are the non-empty texts of the fragments of that attempt's
  stream, in the provider's order, and their concatenation is the full text the
  provider streamed in that attempt. The first three operations resolve if the
  stream ran to its end and reject with the error of the attempt otherwise.
\<close>

theorem streaming_chunks_are_response_text:
  assumes "quietBefore API_KEYS provider st k"
    and "endsCall API_KEYS k (answerAt API_KEYS provider st k)"
    and "\<And>n i. \<not> aborted abortSignal n i"
  shows "local (snd (streamChatResponse API_KEYS provider abortSignal st)) =
           local st @ chunksOf (answerAt API_KEYS provider st k) \<and>
         local (snd (snapAndSolve API_KEYS provider abortSignal st)) =
           local st @ chunksOf (answerAt API_KEYS provider st k) \<and>
         local (snd (generateCaseStudy API_KEYS provider abortSignal st)) =
           local st @ chunksOf (answerAt API_KEYS provider st k) \<and>
         local (snd (analyzeJudgment JSON_parse API_KEYS provider abortSignal st)) =
           local st @ chunksOf (answerAt API_KEYS provider st k) \<and>
         concat (chunksOf (answerAt API_KEYS provider st k)) =
           textOf (answerAt API_KEYS provider st k) \<and>
         fst (streamChatResponse API_KEYS provider abortSignal st) =
           outcomeOf (answerAt API_KEYS provider st k) \<and>
         fst (snapAndSolve API_KEYS provider abortSignal st) =
           outcomeOf (answerAt API_KEYS provider st k) \<and>
         fst (generateCaseStudy API_KEYS provider abortSignal st) =
           outcomeOf (answerAt API_KEYS provider st k)"
  by (intro conjI streaming_run[OF assms] analyzeJudgment_run(2)[OF assms] concat_chunksOf)

text \<open>
  Two keys. The first stream holds a fragment without text and an empty one and
  breaks with a rate-limit error; the second is \<open>Hel\<close>, \<open>lo\<close>. No signal.
\<close>

theorem streaming_chunks_are_response_text_witness:
  "local (snd (streamChatResponse pool2 silentThenHello None (fresh []))) = [''Hel'', ''lo''] \<and>
   local (snd (snapAndSolve pool2 silentThenHello None (fresh []))) = [''Hel'', ''lo''] \<and>
   local (snd (generateCaseStudy pool2 silentThenHello None (fresh []))) = [''Hel'', ''lo''] \<and>
   local (snd (analyzeJudgment parseJSON pool2 silentThenHello None (fresh []))) =
     [''Hel'', ''lo''] \<and>
   concat [''Hel'', ''lo''] = responseText hello \<and>
   fst (streamChatResponse pool2 silentThenHello None (fresh [])) = Inr ()"
proof -
  have a0: "answerAt pool2 silentThenHello (fresh []) 0 =
              Inr \<lparr>fragments = [None, Some []], failure = Some rateLimitError\<rparr>"
    by (simp add: answerAt_def silentThenHello_def fresh_def)
  have a1: "answerAt pool2 silentThenHello (fresh []) 1 = Inr hello"
    by (simp add: answerAt_def silentThenHello_def fresh_def)
  have 1: "quietBefore pool2 silentThenHello (fresh []) 1"
    by (simp add: quietBefore_def a0 retriedQuietly_def truthy_def retryable_def
        rateLimitError_def is429Error_def) (simp add: fresh_def pool2_def)
  have 2: "endsCall pool2 1 (answerAt pool2 silentThenHello (fresh []) 1)"
    unfolding a1 endsCall_def by (simp add: hello_def)
  have 3: "\<not> aborted None n i" for n i by (simp add: aborted_def)
  show ?thesis
    using streaming_chunks_are_response_text[OF 1 2 3, of parseJSON, unfolded a1]
    by (simp add: chunksOf_def textOf_def outcomeOf_def fresh_def hello_def truthy_def)
qed

text \<open>
  C6 as stated fails when a stream breaks with a rate-limit error after it has
  delivered a fragment: the call is retried under the next key, the sink keeps the
  fragment of the broken stream, and what it holds in the end is not the text of
  the response.
\<close>

theorem streamChatResponse_retry_duplicates_chunks:
  "streamChatResponse pool2 brokenThenHello None (fresh []) =
     (Inr (), \<lparr>currentKeyIndex = 1, attempts = [0, 1], local = [''Hel'', ''Hel'', ''lo'']\<rparr>) \<and>
   concat [''Hel'', ''Hel'', ''lo''] \<noteq> responseText hello"
  by (simp add: streamChatResponse_def withKeyRotation_def withKeyRotation_loop.simps request_def
      getClient_def attemptNo_def pool2_def fresh_def streamBody_def brokenThenHello_def hello_def
      aborted_def rotateKey_def Let_def truthy_def onChunk_def rateLimitError_def is429Error_def
      responseText_def)

section \<open>Properties of the post-processing\<close>

text \<open>Splitting at a separator, and trimming.\<close>

lemma splitFrom_no_occurrence:
  "sep \<noteq> [] \<Longrightarrow> \<not> str_includes s sep \<Longrightarrow> splitFrom sep piece s = [piece @ s]"
  by (induction s arbitrary: piece) auto

lemma splitFrom_at_separator:
  "sep \<noteq> [] \<Longrightarrow> splitFrom sep piece (sep @ rest) = piece # splitFrom sep [] rest"
  by (cases sep) auto

lemma no_prefix_across_newline:
  assumes "\<not> prefix sep X" and "c \<notin> set sep"
  shows "\<not> prefix sep (X @ c # Y)"
proof
  assume "prefix sep (X @ c # Y)"
  then obtain us where us: "sep = X @ us" "prefix us (c # Y)"
    using assms(1) by (auto simp: prefix_append)
  from assms(1) us(1) have "us \<noteq> []" by auto
  with us(2) have "hd us = c" by (cases us) auto
  with \<open>us \<noteq> []\<close> us(1) have "c \<in> set sep" by (cases us) auto
  with assms(2) show False by simp
qed

lemma splitFrom_first_piece:
  assumes "sep \<noteq> []" and "c \<notin> set sep" and "\<not> str_includes A sep"
  shows "splitFrom sep piece (A @ c # sep @ rest) = (piece @ A @ [c]) # splitFrom sep [] rest"
  using assms(3)
proof (induction A arbitrary: piece)
  case Nil
  have "\<not> prefix sep (c # sep @ rest)" using assms(1,2) by (cases sep) auto
  then show ?case using assms(1) by (simp add: splitFrom_at_separator)
next
  case (Cons a A)
  then have "\<not> prefix sep (a # A)" "\<not> str_includes A sep" by auto
  from no_prefix_across_newline[OF this(1) assms(2), of "sep @ rest"]
  have "\<not> prefix sep (a # A @ c # sep @ rest)" by simp
  then show ?case using Cons.IH[OF \<open>\<not> str_includes A sep\<close>, of "piece @ [a]"] by simp
qed

lemma trim_snoc_space: "isWhiteSpace c \<Longrightarrow> trim (A @ [c]) = trim A"
proof -
  assume c: "isWhiteSpace c"
  show ?thesis
  proof (cases "\<forall>x\<in>set A. isWhiteSpace x")
    case True
    have 1: "dropWhile isWhiteSpace A = []" using True by simp
    have 2: "dropWhile isWhiteSpace (A @ [c]) = []" using True c by simp
    show ?thesis unfolding trim_def trimStart_def trimEnd_def 1 2 by simp
  next
    case False
    then obtain x where "x \<in> set A" "\<not> isWhiteSpace x" by auto
    then have "dropWhile isWhiteSpace (A @ [c]) = dropWhile isWhiteSpace A @ [c]"
      by (rule dropWhile_append1)
    then show ?thesis using c by (simp add: trim_def trimStart_def trimEnd_def)
  qed
qed

lemma trim_Cons_space: "isWhiteSpace c \<Longrightarrow> trim (c # B) = trim B"
  by (simp add: trim_def trimStart_def)


lemma trim_all_space: "\<forall>x\<in>set w. isWhiteSpace x \<Longrightarrow> trim (w @ s) = trim s"
  by (simp add: trim_def trimStart_def dropWhile_append2)

lemma trim_append_space: "\<forall>x\<in>set w. isWhiteSpace x \<Longrightarrow> trim (s @ w) = trim s"
  by (induction w rule: rev_induct) (simp_all add: trim_snoc_space flip: append_assoc)

lemma trim_fixed:
  assumes "s \<noteq> []" and "\<not> isWhiteSpace (hd s)" and "\<not> isWhiteSpace (last s)"
  shows "trim s = s"
proof -
  have 1: "dropWhile isWhiteSpace s = s" using assms(1,2) by (cases s) auto
  have "rev s \<noteq> []" "\<not> isWhiteSpace (hd (rev s))" using assms(1,3) by (simp_all add: hd_rev)
  then have "dropWhile isWhiteSpace (rev s) = rev s" by (cases "rev s") auto
  with 1 show ?thesis by (simp add: trim_def trimStart_def trimEnd_def)
qed

lemma trim_Nil [simp]: "trim [] = []"
  by (simp add: trim_def trimStart_def trimEnd_def)

lemma trim_idem: "trim (trim s) = trim s"
proof (cases "trim s = []")
  case True
  then show ?thesis by simp
next
  case False
  let ?t = "dropWhile isWhiteSpace s"
  have ts: "trim s = rev (dropWhile isWhiteSpace (rev ?t))"
    by (simp add: trim_def trimStart_def trimEnd_def)
  from False ts have r: "dropWhile isWhiteSpace (rev ?t) \<noteq> []" by auto
  then have "\<not> isWhiteSpace (hd (dropWhile isWhiteSpace (rev ?t)))" by (rule hd_dropWhile)
  then have l: "\<not> isWhiteSpace (last (trim s))" using r ts by (simp add: last_rev)
  have "?t \<noteq> []" using r by (metis dropWhile.simps(1) rev_is_Nil_conv)
  then have h: "\<not> isWhiteSpace (hd ?t)" by (rule hd_dropWhile)
  obtain pre where pre: "rev ?t = pre @ dropWhile isWhiteSpace (rev ?t)"
    by (metis takeWhile_dropWhile_id)
  then have "?t = trim s @ rev pre" using ts by (metis rev_append rev_rev_ident)
  then have "hd ?t = hd (trim s)" using False by (metis hd_append2)
  with h have "\<not> isWhiteSpace (hd (trim s))" by simp
  with False l show ?thesis by (intro trim_fixed) auto
qed

lemma set_trim: "set (trim s) \<subseteq> set s"
proof -
  have "set (trim s) \<subseteq> set (dropWhile isWhiteSpace s)"
    unfolding trim_def trimStart_def trimEnd_def
    by (metis set_dropWhileD set_rev subsetI)
  also have "\<dots> \<subseteq> set s" by (auto dest: set_dropWhileD)
  finally show ?thesis .
qed

text \<open>The three replacements leave a text without backquotes as it is.\<close>

lemma toLower_backquote: "toLower c = CHR 0x60 \<Longrightarrow> c = CHR 0x60"
  by (auto simp: toLower_def split: option.splits if_splits)

lemma stripMermaidFence_plain: "CHR 0x60 \<notin> set s \<Longrightarrow> stripMermaidFence s = s"
proof (cases s)
  case Nil
  then show ?thesis by (simp add: stripMermaidFence_def)
next
  case (Cons c cs)
  assume "CHR 0x60 \<notin> set s"
  with Cons have "c \<noteq> CHR 0x60" by auto
  then have "toLower c \<noteq> CHR 0x60" using toLower_backquote by blast
  then show ?thesis using Cons by (auto simp: stripMermaidFence_def)
qed

lemma stripFenceStarts_plain: "CHR 0x60 \<notin> set s \<Longrightarrow> stripFenceStarts b s = s"
  by (induction s arbitrary: b) auto

lemma stripFenceEnds_plain: "CHR 0x60 \<notin> set s \<Longrightarrow> stripFenceEnds s = s"
proof (induction s)
  case Nil
  then show ?case by simp
next
  case (Cons c cs)
  have "\<not> prefix ''```'' (dropWhile isWhiteSpace (c # cs))"
  proof
    assume "prefix ''```'' (dropWhile isWhiteSpace (c # cs))"
    then obtain r where "dropWhile isWhiteSpace (c # cs) = CHR 0x60 # r"
      by (cases "dropWhile isWhiteSpace (c # cs)") auto
    then have "CHR 0x60 \<in> set (dropWhile isWhiteSpace (c # cs))" by simp
    then have "CHR 0x60 \<in> set (c # cs)" by (rule set_dropWhileD)
    with Cons.prems show False by simp
  qed
  then show ?case using Cons by simp
qed

lemma cleanMermaid_plain: "CHR 0x60 \<notin> set s \<Longrightarrow> cleanMermaid s = trim s"
  by (simp add: cleanMermaid_def stripMermaidFence_plain stripFenceStarts_plain
      stripFenceEnds_plain)

text \<open>
  A fenced diagram: three backquotes, the word \<^verbatim>\<open>mermaid\<close> in any letter case or
  nothing, a text \<open>M\<close> without backquotes, three backquotes. The first replacement
  removes a labelled opening fence, the second an unlabelled one, and the closing
  fence when it starts a line; the third removes a closing fence that is left, with
  the white space before it. What remains is \<open>M\<close>, trimmed.
\<close>

lemma backquote_facts:
  "\<not> isWhiteSpace (CHR 0x60)" "toLower (CHR 0x60) = CHR 0x60" "\<not> isLineTerminator (CHR 0x60)"
  by (simp_all add: isWhiteSpace_def toLower_def isLineTerminator_def)

lemma dropWhile_before_fence:
  "dropWhile isWhiteSpace (M @ ''```'') = dropWhile isWhiteSpace M @ ''```''"
  by (induction M) (simp_all add: backquote_facts)

lemma stripFenceStarts_closing:
  "CHR 0x60 \<notin> set X \<Longrightarrow>
   stripFenceStarts b (X @ ''```'') =
     X @ (if (if X = [] then b else isLineTerminator (last X)) then [] else ''```'')"
proof (induction X arbitrary: b)
  case Nil
  show ?case by (simp add: backquote_facts)
next
  case (Cons x xs)
  then show ?case by simp
qed

lemma trimEnd_all_space: "\<forall>x\<in>set s. isWhiteSpace x \<Longrightarrow> trimEnd s = []"
  by (simp add: trimEnd_def)

lemma trimEnd_Cons:
  assumes "\<exists>x\<in>set (c # cs). \<not> isWhiteSpace x"
  shows "trimEnd (c # cs) = c # trimEnd cs"
proof (cases "\<forall>x\<in>set cs. isWhiteSpace x")
  case True
  with assms have c: "\<not> isWhiteSpace c" by auto
  have "\<And>x. x \<in> set (rev cs) \<Longrightarrow> isWhiteSpace x" using True by simp
  then have "dropWhile isWhiteSpace (rev cs @ [c]) = dropWhile isWhiteSpace [c]"
    by (rule dropWhile_append2)
  then have 1: "dropWhile isWhiteSpace (rev cs @ [c]) = [c]" using c by simp
  have 2: "dropWhile isWhiteSpace (rev cs) = []" using True by simp
  show ?thesis unfolding trimEnd_def using 1 2 by simp
next
  case False
  then obtain x where "x \<in> set (rev cs)" "\<not> isWhiteSpace x" by auto
  then have "dropWhile isWhiteSpace (rev cs @ [c]) = dropWhile isWhiteSpace (rev cs) @ [c]"
    by (rule dropWhile_append1)
  then show ?thesis by (simp add: trimEnd_def)
qed

lemma stripFenceEnds_closing:
  "CHR 0x60 \<notin> set X \<Longrightarrow> stripFenceEnds (X @ ''```'') = trimEnd X"
proof (induction X)
  case Nil
  show ?case by (simp add: backquote_facts atLineEnd_def trimEnd_def)
next
  case (Cons x xs)
  show ?case
  proof (cases "\<forall>y\<in>set (x # xs). isWhiteSpace y")
    case True
    then have "dropWhile isWhiteSpace ((x # xs) @ ''```'') = ''```''"
      by (simp add: dropWhile_append2 backquote_facts)
    then have "stripFenceEnds ((x # xs) @ ''```'') = []"
      by (simp add: atLineEnd_def)
    then show ?thesis using trimEnd_all_space[OF True] by simp
  next
    case False
    then have ex: "\<exists>y\<in>set (x # xs). \<not> isWhiteSpace y" by simp
    let ?d = "dropWhile isWhiteSpace (x # xs)"
    have ne: "?d \<noteq> []" using False by simp
    then have "hd ?d \<in> set ?d" by simp
    then have "hd ?d \<in> set (x # xs)" by (rule set_dropWhileD)
    then have "hd ?d \<noteq> CHR 0x60" using Cons.prems by auto
    then have "\<not> prefix ''```'' (?d @ ''```'')" using ne by (cases ?d) auto
    then have "\<not> prefix ''```'' (dropWhile isWhiteSpace (x # xs @ ''```''))"
      using dropWhile_before_fence[of "x # xs"] by simp
    then have "stripFenceEnds ((x # xs) @ ''```'') = x # stripFenceEnds (xs @ ''```'')"
      by simp
    then show ?thesis using Cons trimEnd_Cons[OF ex] by simp
  qed
qed

lemma trim_trimEnd: "trim (trimEnd s) = trim s"
proof -
  have "rev s = takeWhile isWhiteSpace (rev s) @ dropWhile isWhiteSpace (rev s)" by simp
  then have "s = trimEnd s @ rev (takeWhile isWhiteSpace (rev s))"
    unfolding trimEnd_def by (metis rev_append rev_rev_ident)
  moreover have "\<forall>x\<in>set (rev (takeWhile isWhiteSpace (rev s))). isWhiteSpace x"
    by (auto dest: set_takeWhileD)
  ultimately show ?thesis using trim_append_space by metis
qed

lemma trim_dropWhile: "trim (dropWhile isWhiteSpace s) = trim s"
  by (simp add: trim_def trimStart_def)

lemma clean_tail:
  assumes "CHR 0x60 \<notin> set X"
  shows "trim (stripFenceEnds (stripFenceStarts b (X @ ''```''))) = trim X"
proof (cases "if X = [] then b else isLineTerminator (last X)")
  case True
  then have "stripFenceStarts b (X @ ''```'') = X"
    using stripFenceStarts_closing[OF assms, of b] by simp
  then show ?thesis using assms by (simp add: stripFenceEnds_plain)
next
  case False
  then have "stripFenceStarts b (X @ ''```'') = X @ ''```''"
    using stripFenceStarts_closing[OF assms, of b] by simp
  then show ?thesis using assms by (simp add: stripFenceEnds_closing trim_trimEnd)
qed

lemma stripMermaidFence_tagged:
  assumes "map toLower tag = ''mermaid''"
  shows "stripMermaidFence (''```'' @ tag @ M @ ''```'') = dropWhile isWhiteSpace M @ ''```''"
proof -
  have "length (map toLower tag) = 7" unfolding assms by simp
  then have l: "length tag = 7" by simp
  have t: "map toLower (take 10 (''```'' @ tag @ M @ ''```'')) = ''```mermaid''"
    using l assms by (simp add: backquote_facts)
  have d: "drop 10 (''```'' @ tag @ M @ ''```'') = M @ ''```''"
    using l by simp
  show ?thesis unfolding stripMermaidFence_def t d dropWhile_before_fence by simp
qed

lemma stripMermaidFence_untagged:
  assumes "map toLower (take 7 M) \<noteq> ''mermaid''"
  shows "stripMermaidFence (''```'' @ M @ ''```'') = ''```'' @ M @ ''```''"
proof -
  have "map toLower (take 7 (M @ ''```'')) \<noteq> ''mermaid''"
  proof (cases "7 \<le> length M")
    case True
    then show ?thesis using assms by simp
  next
    case False
    then obtain n where n: "7 - length M = Suc n" by (cases "7 - length M") simp_all
    have "take 7 (M @ ''```'') = M @ take (Suc n) ''```''" using n by simp
    then have "CHR 0x60 \<in> set (take 7 (M @ ''```''))" by simp
    then have "toLower (CHR 0x60) \<in> set (map toLower (take 7 (M @ ''```'')))"
      by (simp only: set_map image_eqI)
    then have "CHR 0x60 \<in> set (map toLower (take 7 (M @ ''```'')))"
      by (simp only: backquote_facts)
    moreover have "CHR 0x60 \<notin> set ''mermaid''" by simp
    ultimately show ?thesis by metis
  qed
  then show ?thesis by (simp add: stripMermaidFence_def)
qed

lemma cleanMermaid_fenced:
  assumes "CHR 0x60 \<notin> set M"
    and "map toLower tag = ''mermaid'' \<or> tag = [] \<and> map toLower (take 7 M) \<noteq> ''mermaid''"
  shows "cleanMermaid (''```'' @ tag @ M @ ''```'') = trim M"
proof -
  have d: "CHR 0x60 \<notin> set (dropWhile isWhiteSpace M)"
    using assms(1) by (auto dest: set_dropWhileD)
  from assms(2) show ?thesis
  proof
    assume "map toLower tag = ''mermaid''"
    then show ?thesis
      by (simp only: cleanMermaid_def stripMermaidFence_tagged clean_tail[OF d] trim_dropWhile)
  next
    assume a: "tag = [] \<and> map toLower (take 7 M) \<noteq> ''mermaid''"
    then have u: "stripMermaidFence (''```'' @ M @ ''```'') = ''```'' @ M @ ''```''"
      by (intro stripMermaidFence_untagged) simp
    have s: "stripFenceStarts True (''```'' @ M @ ''```'') =
            stripFenceStarts
              (takeWhile isWhiteSpace (M @ ''```'') \<noteq> [] \<and>
               isLineTerminator (last (takeWhile isWhiteSpace (M @ ''```''))))
              (dropWhile isWhiteSpace M @ ''```'')"
      using dropWhile_before_fence[of M] by simp
    have "cleanMermaid (''```'' @ M @ ''```'') = trim M"
      unfolding cleanMermaid_def u s clean_tail[OF d] trim_dropWhile ..
    then show ?thesis using a by simp
  qed
qed

lemma marker_facts: "marker \<noteq> []" "CHR ''\<newline>'' \<notin> set marker" "\<not> prefix marker (CHR ''\<newline>'' # B)"
  by (simp_all add: marker_def)

lemma newline_space: "isWhiteSpace CHR ''\<newline>''"
  by (simp add: isWhiteSpace_def)

lemma flowchartOf_marked:
  assumes "\<not> str_includes A marker" and "\<not> str_includes B marker"
  shows "flowchartOf (A @ ''\<newline>'' @ marker @ ''\<newline>'' @ B) =
           \<lparr>mermaid = cleanMermaid (trim A), explanation = trim B\<rparr>"
proof -
  have "\<not> str_includes (CHR ''\<newline>'' # B) marker" using assms(2) marker_facts(3) by simp
  then have 2: "splitFrom marker [] (CHR ''\<newline>'' # B) = [CHR ''\<newline>'' # B]"
    using splitFrom_no_occurrence[OF marker_facts(1), of "CHR ''\<newline>'' # B" "[]"] by simp
  have "splitFrom marker [] (A @ CHR ''\<newline>'' # marker @ CHR ''\<newline>'' # B) =
          (A @ [CHR ''\<newline>'']) # splitFrom marker [] (CHR ''\<newline>'' # B)"
    using splitFrom_first_piece[OF marker_facts(1,2) assms(1), of "[]" "CHR ''\<newline>'' # B"] by simp
  with 2 have "str_split (A @ ''\<newline>'' @ marker @ ''\<newline>'' @ B) marker =
          [A @ [CHR ''\<newline>''], CHR ''\<newline>'' # B]"
    using marker_facts(1) by (simp add: str_split_def)
  then show ?thesis
    by (simp add: flowchartOf_def Let_def trim_snoc_space trim_Cons_space newline_space)
qed

lemma flowchartOf_unmarked:
  assumes "\<not> str_includes raw marker"
  shows "flowchartOf raw = \<lparr>mermaid = cleanMermaid (trim raw), explanation = []\<rparr>"
proof -
  have "str_split raw marker = [raw]"
    using splitFrom_no_occurrence[OF marker_facts(1) assms, of "[]"] marker_facts(1)
    by (simp add: str_split_def)
  then show ?thesis by (simp add: flowchartOf_def Let_def)
qed

text \<open>
  C7, amended. For \<open>A\<close> and \<open>B\<close> that do not contain the marker: the response \<open>A\<close>,
  line break, marker, line break, \<open>B\<close> yields the trimmed \<open>A\<close> with its code fences
  stripped as diagram and the trimmed \<open>B\<close> as explanation; the response \<open>A\<close> alone,
  which holds no marker, yields the trimmed \<open>A\<close> with its code fences stripped as
  diagram, and an empty explanation. Stripping the fences: where \<open>A\<close> has no
  backquote, nothing changes and the diagram is the trimmed \<open>A\<close>; where the trimmed
  \<open>A\<close> is a text \<open>M\<close> without backquotes between an opening fence (three
  backquotes followed by the word \<^verbatim>\<open>mermaid\<close> in any letter case, or three
  backquotes alone when \<open>M\<close> does not begin with that word) and a closing fence of
  three backquotes, the diagram is the trimmed \<open>M\<close>.
\<close>

theorem flowchartOf_split_law:
  assumes "\<not> str_includes A marker" and "\<not> str_includes B marker"
  shows "flowchartOf (A @ ''\<newline>'' @ marker @ ''\<newline>'' @ B) =
           \<lparr>mermaid = cleanMermaid (trim A), explanation = trim B\<rparr> \<and>
         flowchartOf A = \<lparr>mermaid = cleanMermaid (trim A), explanation = []\<rparr> \<and>
         (CHR 0x60 \<notin> set A \<longrightarrow> cleanMermaid (trim A) = trim A) \<and>
         (\<forall>tag M. trim A = ''```'' @ tag @ M @ ''```'' \<and> CHR 0x60 \<notin> set M \<and>
                  (map toLower tag = ''mermaid'' \<or>
                   tag = [] \<and> map toLower (take 7 M) \<noteq> ''mermaid'')
            \<longrightarrow> cleanMermaid (trim A) = trim M)"
proof -
  have plain: "CHR 0x60 \<notin> set (trim A)" if "CHR 0x60 \<notin> set A"
    using that set_trim[of A] by auto
  have fenced: "cleanMermaid (trim A) = trim M"
    if "trim A = ''```'' @ tag @ M @ ''```''" "CHR 0x60 \<notin> set M"
      "map toLower tag = ''mermaid'' \<or> tag = [] \<and> map toLower (take 7 M) \<noteq> ''mermaid''"
    for tag M
    unfolding that(1) using that(2,3) by (rule cleanMermaid_fenced)
  have 1: "flowchartOf (A @ ''\<newline>'' @ marker @ ''\<newline>'' @ B) =
           \<lparr>mermaid = cleanMermaid (trim A), explanation = trim B\<rparr>"
    by (rule flowchartOf_marked[OF assms])
  have 2: "flowchartOf A = \<lparr>mermaid = cleanMermaid (trim A), explanation = []\<rparr>"
    by (rule flowchartOf_unmarked[OF assms(1)])
  have 3: "CHR 0x60 \<notin> set A \<longrightarrow> cleanMermaid (trim A) = trim A"
    using plain by (simp add: cleanMermaid_plain trim_idem)
  have 4: "\<forall>tag M. trim A = ''```'' @ tag @ M @ ''```'' \<and> CHR 0x60 \<notin> set M \<and>
                  (map toLower tag = ''mermaid'' \<or>
                   tag = [] \<and> map toLower (take 7 M) \<noteq> ''mermaid'')
            \<longrightarrow> cleanMermaid (trim A) = trim M"
  proof (intro allI impI, elim conjE)
    fix tag M
    assume "trim A = ''```'' @ tag @ M @ ''```''" "CHR 0x60 \<notin> set M"
      "map toLower tag = ''mermaid'' \<or> tag = [] \<and> map toLower (take 7 M) \<noteq> ''mermaid''"
    then show "cleanMermaid (trim A) = trim M" by (rule fenced)
  qed
  show ?thesis by (intro conjI 1 2 3 4)
qed

text \<open>
  The response \<open>A\<close>, line break, marker, line break, \<open>B\<close>, and the same with a
  fenced diagram in the place of \<open>A\<close>.
\<close>

theorem flowchartOf_split_law_witness:
  "\<not> str_includes ''A'' marker \<and> \<not> str_includes ''B'' marker \<and>
   flowchartOf (''A'' @ ''\<newline>'' @ marker @ ''\<newline>'' @ ''B'') = \<lparr>mermaid = ''A'', explanation = ''B''\<rparr> \<and>
   flowchartOf ''A'' = \<lparr>mermaid = ''A'', explanation = []\<rparr> \<and>
   \<not> str_includes '' ```Mermaid\<newline>graph TD\<newline>``` '' marker \<and>
   flowchartOf ('' ```Mermaid\<newline>graph TD\<newline>``` '' @ ''\<newline>'' @ marker @ ''\<newline>'' @ ''B'') =
     \<lparr>mermaid = ''graph TD'', explanation = ''B''\<rparr> \<and>
   flowchartOf '' ```Mermaid\<newline>graph TD\<newline>``` '' = \<lparr>mermaid = ''graph TD'', explanation = []\<rparr>"
proof -
  let ?A = "'' ```Mermaid\<newline>graph TD\<newline>``` ''"
  have 1: "\<not> str_includes ''A'' marker" by (simp add: marker_def)
  have 2: "\<not> str_includes ''B'' marker" by (simp add: marker_def)
  have 3: "trim ''A'' = ''A''" "trim ''B'' = ''B''"
    by (simp_all add: trim_def trimStart_def trimEnd_def isWhiteSpace_def)
  have 4: "\<not> str_includes ?A marker" by code_simp
  have 5: "trim ?A = ''```'' @ ''Mermaid'' @ ''\<newline>graph TD\<newline>'' @ ''```''" by code_simp
  have 6: "CHR 0x60 \<notin> set ''\<newline>graph TD\<newline>''" by simp
  have 7: "map toLower ''Mermaid'' = ''mermaid''" by code_simp
  have 8: "trim ''\<newline>graph TD\<newline>'' = ''graph TD''" by code_simp
  have plain: "flowchartOf (''A'' @ ''\<newline>'' @ marker @ ''\<newline>'' @ ''B'') = \<lparr>mermaid = ''A'', explanation = ''B''\<rparr> \<and>
      flowchartOf ''A'' = \<lparr>mermaid = ''A'', explanation = []\<rparr>"
    using flowchartOf_split_law[OF 1 2] by (simp add: 3)
  note law = flowchartOf_split_law[OF 4 2]
  note f = law[THEN conjunct1] law[THEN conjunct2, THEN conjunct1]
  have "cleanMermaid (trim ?A) = trim ''\<newline>graph TD\<newline>''"
    by (rule law[THEN conjunct2, THEN conjunct2, THEN conjunct2, rule_format,
          where tag = "''Mermaid''"])
       (intro conjI 5 6 disjI1 7)
  with f(1,2) 3 8 have "flowchartOf (?A @ ''\<newline>'' @ marker @ ''\<newline>'' @ ''B'') =
             \<lparr>mermaid = ''graph TD'', explanation = ''B''\<rparr>"
    "flowchartOf ?A = \<lparr>mermaid = ''graph TD'', explanation = []\<rparr>" by simp_all
  with plain 1 2 4 show ?thesis by blast
qed

text \<open>
  C7 as stated gives the trimmed full response as the diagram of a response
  without marker, and \<open>B\<close> as the explanation whatever \<open>B\<close> is. A response without
  marker that is a fenced block loses its fences; an explanation ends at the next
  marker; and where \<open>A\<close> holds a marker, the response is split there.
\<close>

theorem flowchartOf_strips_fences_without_marker:
  "\<not> str_includes ''```mermaid\<newline>flowchart TD\<newline>```'' marker \<and>
   trim ''```mermaid\<newline>flowchart TD\<newline>```'' = ''```mermaid\<newline>flowchart TD\<newline>```'' \<and>
   flowchartOf ''```mermaid\<newline>flowchart TD\<newline>```'' =
     \<lparr>mermaid = ''flowchart TD'', explanation = []\<rparr> \<and>
   flowchartOf (''A'' @ ''\<newline>'' @ marker @ ''\<newline>'' @ ''B---EXPLANATION---C'') =
     \<lparr>mermaid = ''A'', explanation = ''B''\<rparr> \<and>
   flowchartOf (''X---EXPLANATION---Y'' @ ''\<newline>'' @ marker @ ''\<newline>'' @ ''B'') =
     \<lparr>mermaid = ''X'', explanation = ''Y''\<rparr>"
  by code_simp

text \<open>
  \<^verbatim>\<open>generateLegalFlowchart\<close> resolves with the flowchart of the text of the response
  that serves the call.
\<close>

lemma generateLegalFlowchart_served:
  assumes "rateLimitedBefore API_KEYS provider st k"
    and "answerAt API_KEYS provider st k = Inr (Some raw)"
  shows "fst (generateLegalFlowchart API_KEYS provider st) = Inr (flowchartOf raw)"
proof -
  let ?body = "flowchartBody provider"
  let ?out = "(Inr (flowchartOf raw) :: jsError + flowchart, local st)"
  have run: "fst (withKeyRotation API_KEYS (request API_KEYS ?body) st) = fst ?out \<and>
         local (snd (withKeyRotation API_KEYS (request API_KEYS ?body) st)) = snd ?out \<and>
         currentKeyIndex (snd (withKeyRotation API_KEYS (request API_KEYS ?body) st)) =
           (currentKeyIndex st + k) mod length API_KEYS \<and>
         attempts (snd (withKeyRotation API_KEYS (request API_KEYS ?body) st)) =
           attempts st @ map (\<lambda>j. (currentKeyIndex st + j) mod length API_KEYS) [0..<Suc k]"
  proof (rule provider_run[OF assms(1), where process =
      "\<lambda>n t l. (Inr (flowchartOf (case t of None \<Rightarrow> [] | Some t \<Rightarrow> t)), l)"])
    show "?body n ai l = (case provider n ai of Inl err \<Rightarrow> (Inl err, l)
        | Inr t \<Rightarrow> (Inr (flowchartOf (case t of None \<Rightarrow> [] | Some t \<Rightarrow> t)), l))"
      for n ai l by (simp add: flowchartBody_def split: sum.splits)
    show "?out = (case answerAt API_KEYS provider st k of
                 Inl err \<Rightarrow> (Inl err, local st)
               | Inr t \<Rightarrow> (Inr (flowchartOf (case t of None \<Rightarrow> [] | Some t \<Rightarrow> t)), local st))"
      using assms(2) by simp
    show "final (fst ?out) \<or> k + 1 = length API_KEYS" by (simp add: final_def)
  qed
  obtain r' st' where eq:
    "withKeyRotation API_KEYS (request API_KEYS ?body) st = (r', st')"
    by (cases "withKeyRotation API_KEYS (request API_KEYS ?body) st")
  with run have "r' = Inr (flowchartOf raw)" by simp
  then show ?thesis using eq by (simp add: generateLegalFlowchart_def)
qed

section \<open>Properties of the judgment analysis\<close>

text \<open>
  A call that is never cancelled, in which no attempt that was retried had delivered
  text, and whose last attempt streams its response to the end, parses the full text
  of that response.
\<close>

lemma analyzeJudgment_served:
  assumes "quietBefore API_KEYS provider st k"
    and "answerAt API_KEYS provider st k = Inr response"
    and "failure response = None"
    and "\<And>n i. \<not> aborted abortSignal n i"
  shows "fst (analyzeJudgment JSON_parse API_KEYS provider abortSignal st) =
           Inr (parseAnalysis JSON_parse (responseText response)) \<and>
         local (snd (analyzeJudgment JSON_parse API_KEYS provider abortSignal st)) =
           local st @ map the (filter truthy (fragments response))"
proof -
  have e: "endsCall API_KEYS k (answerAt API_KEYS provider st k)"
    using assms(2,3) by (simp add: endsCall_def)
  show ?thesis
    using analyzeJudgment_run[OF assms(1) e assms(4), of JSON_parse] assms(2,3)
    by (simp add: outcomeOf_def textOf_def chunksOf_def)
qed

text \<open>What the two replacements leave of a fenced JSON object.\<close>

lemma in_set_dropWhile: "x \<in> set xs \<Longrightarrow> \<not> P x \<Longrightarrow> x \<in> set (dropWhile P xs)"
  by (induction xs) auto

lemma stripClosingFence_only_fence:
  "\<forall>c\<in>set w. isWhiteSpace c \<Longrightarrow> stripClosingFence (w @ ''```'') = []"
  by (cases w) (simp_all add: dropWhile_append2 isWhiteSpace_def)

lemma stripClosingFence_after_brace:
  assumes "\<forall>c\<in>set w. isWhiteSpace c"
  shows "stripClosingFence (p @ CHR ''}'' # w @ ''```'') = p @ ''}''"
proof (induction p)
  case Nil
  show ?case using assms by (simp add: stripClosingFence_only_fence isWhiteSpace_def)
next
  case (Cons a p)
  have "CHR ''}'' \<in> set (dropWhile isWhiteSpace (a # p @ CHR ''}'' # w @ ''```''))"
    by (rule in_set_dropWhile) (simp_all add: isWhiteSpace_def)
  moreover have "CHR ''}'' \<notin> set ''```''" by simp
  ultimately have "dropWhile isWhiteSpace (a # p @ CHR ''}'' # w @ ''```'') \<noteq> ''```''"
    by metis
  then show ?case using Cons by simp
qed


lemma cleanResponse_fenced:
  assumes ws: "\<forall>c\<in>set (w0 @ w1 @ w2 @ w3). isWhiteSpace c"
    and tag: "tag = [] \<or> tag = ''json''"
    and J: "J = CHR ''{'' # inner @ ''}''"
  shows "cleanResponse (w0 @ ''```'' @ tag @ w1 @ J @ w2 @ ''```'' @ w3) = J"
proof -
  let ?X = "''```'' @ tag @ w1 @ J @ w2 @ ''```''"
  have w: "\<forall>c\<in>set w0. isWhiteSpace c" "\<forall>c\<in>set w1. isWhiteSpace c"
    "\<forall>c\<in>set w2. isWhiteSpace c" "\<forall>c\<in>set w3. isWhiteSpace c"
    using ws by auto
  have bq: "\<not> isWhiteSpace (CHR 0x60)" and br: "\<not> isWhiteSpace CHR ''{''"
    by (simp_all add: isWhiteSpace_def)
  have "trim (w0 @ ?X @ w3) = trim ?X"
    using trim_all_space[OF w(1), of "?X @ w3"] trim_append_space[OF w(4), of ?X] by simp
  also have "trim ?X = ?X"
    by (rule trim_fixed) (simp_all add: bq)
  finally have t: "trim (w0 @ ''```'' @ tag @ w1 @ J @ w2 @ ''```'' @ w3) = ?X" by simp
  have nj: "\<not> prefix ''json'' (w1 @ J @ w2 @ ''```'')"
  proof (cases w1)
    case Nil
    then show ?thesis by (simp add: J)
  next
    case (Cons c cs)
    then have "isWhiteSpace c" using w(2) by simp
    then have "c \<noteq> CHR ''j''" by (auto simp: isWhiteSpace_def)
    then show ?thesis using Cons by simp
  qed
  have dw: "dropWhile isWhiteSpace (w1 @ J @ w2 @ ''```'') = J @ w2 @ ''```''"
    using w(2) by (simp add: dropWhile_append2 J br)
  have "stripOpeningFence ?X = J @ w2 @ ''```''"
    using tag nj dw by (auto simp: stripOpeningFence_def)
  moreover have "stripClosingFence (J @ w2 @ ''```'') = J"
    using stripClosingFence_after_brace[OF w(3), of "CHR ''{'' # inner"] by (simp add: J)
  ultimately show ?thesis unfolding cleanResponse_def t by (simp add: Let_def)
qed

lemma cleanResponse_bare:
  assumes ws: "\<forall>c\<in>set (w0 @ w3). isWhiteSpace c"
    and J: "J = CHR ''{'' # inner @ ''}''"
  shows "cleanResponse (w0 @ J @ w3) = J"
proof -
  have w: "\<forall>c\<in>set w0. isWhiteSpace c" "\<forall>c\<in>set w3. isWhiteSpace c"
    using ws by auto
  have "trim (w0 @ J @ w3) = trim J"
    using trim_all_space[OF w(1), of "J @ w3"] trim_append_space[OF w(2), of J] by simp
  also have "trim J = J"
    by (rule trim_fixed) (simp_all add: J isWhiteSpace_def)
  finally show ?thesis by (simp add: cleanResponse_def Let_def J)
qed

text \<open>
  C8, amended. The call is never cancelled, no attempt of it that was retried had
  delivered text, and its last attempt streams the response to the end. \<open>J\<close> is the
  text of a JSON object (from its opening to its closing brace) that \<open>JSON_parse\<close>
  reads as \<open>v\<close>. If the response is \<open>J\<close>, bare or inside a fence opened by three
  backquotes with or without the word \<open>json\<close> and closed by three backquotes, with
  any white space around the fence and between fence and object, the call resolves
  with \<open>v\<close>. If the text left after fence-stripping is not valid JSON, the call
  resolves with \<open>null\<close>; it does not reject.
\<close>

theorem analyzeJudgment_json_round_trip:
  assumes "quietBefore API_KEYS provider st k"
    and "answerAt API_KEYS provider st k = Inr response"
    and "failure response = None"
    and "\<And>n i. \<not> aborted abortSignal n i"
    and "\<forall>c\<in>set (w0 @ w1 @ w2 @ w3). isWhiteSpace c"
    and "tag = [] \<or> tag = ''json''"
    and "J = CHR ''{'' # inner @ ''}''"
  shows "(JSON_parse J = Some v \<and>
          (responseText response = w0 @ ''```'' @ tag @ w1 @ J @ w2 @ ''```'' @ w3 \<or>
           responseText response = w0 @ J @ w3)
          \<longrightarrow> fst (analyzeJudgment JSON_parse API_KEYS provider abortSignal st) = Inr v) \<and>
         (JSON_parse (cleanResponse (responseText response)) = None
          \<longrightarrow> fst (analyzeJudgment JSON_parse API_KEYS provider abortSignal st) = Inr JNull)"
proof -
  have bare: "cleanResponse (w0 @ J @ w3) = J"
    using assms(5) by (intro cleanResponse_bare[OF _ assms(7)]) auto
  show ?thesis
    using analyzeJudgment_served[OF assms(1-4), of JSON_parse]
      cleanResponse_fenced[OF assms(5-7)] bare
    by (auto simp: parseAnalysis_def)
qed

text \<open>A fenced object, streamed in two fragments.\<close>

theorem analyzeJudgment_json_round_trip_witness:
  \<open>fst (analyzeJudgment parseJSON pool2 (streamed ''```json\<newline>{"court": '' ''"SC"}\<newline>```'') None (fresh []))
     = Inr (JObject [(''court'', JString ''SC'')])\<close>
proof -
  let ?p = \<open>streamed ''```json\<newline>{"court": '' ''"SC"}\<newline>```''\<close>
  let ?r = \<open>\<lparr>fragments = [Some ''```json\<newline>{"court": '', Some ''"SC"}\<newline>```''], failure = None\<rparr>\<close>
  have 1: "quietBefore pool2 ?p (fresh []) 0"
    by (simp add: quietBefore_def fresh_def pool2_def)
  have 2: "answerAt pool2 ?p (fresh []) 0 = Inr ?r"
    by (simp add: answerAt_def streamed_def)
  have 3: "failure ?r = None" by simp
  have 4: "\<not> aborted None n i" for n i by (simp add: aborted_def)
  have 5: "\<forall>c\<in>set ([] @ ''\<newline>'' @ ''\<newline>'' @ []). isWhiteSpace c" by (simp add: isWhiteSpace_def)
  have 6: "''json'' = [] \<or> ''json'' = ''json''" by simp
  have 7: \<open>''{"court": "SC"}'' = CHR ''{'' # ''"court": "SC"'' @ ''}''\<close> by simp
  have 8: \<open>parseJSON ''{"court": "SC"}'' = Some (JObject [(''court'', JString ''SC'')])\<close>
    by code_simp
  have 9: \<open>responseText ?r = [] @ ''```'' @ ''json'' @ ''\<newline>'' @ ''{"court": "SC"}'' @ ''\<newline>'' @ ''```'' @ []\<close>
    by (simp add: responseText_def)
  show ?thesis
    using analyzeJudgment_json_round_trip[OF 1 2 3 4 5 6 7, of parseJSON "JObject [(''court'', JString ''SC'')]"] 8 9
    by simp
qed

text \<open>
  C8 as stated covers every fenced code block and every call. The first replacement
  removes the three backquotes and the word \<open>json\<close> in lower case only: under a
  fence labelled \<open>JSON\<close> the label stays, the text does not parse, and the result is
  \<open>null\<close> although the object inside the fence is well formed. \<^verbatim>\<open>fullResponse\<close>
  is declared outside the retried operation: when a first stream breaks with a
  rate-limit error after the fragment \<open>{\<close>, the well-formed object streamed under
  the second key is appended to that fragment, and the result is \<open>null\<close>. When the
  signal is set, the loop is left at the first fragment and the empty text is
  parsed: the result is \<open>null\<close> for a well-formed response.
\<close>

theorem analyzeJudgment_object_response_is_null:
  \<open>parseJSON ''{"court": "SC"}'' = Some (JObject [(''court'', JString ''SC'')]) \<and>
   cleanResponse ''```JSON\<newline>{"court": "SC"}\<newline>```'' = ''JSON\<newline>{"court": "SC"}'' \<and>
   fst (analyzeJudgment parseJSON pool2 (streamed ''```JSON\<newline>{"court": '' ''"SC"}\<newline>```'') None
          (fresh [])) = Inr JNull \<and>
   analyzeJudgment parseJSON pool2 (brokenThen ''{'' ''{"court": '' ''"SC"}'') None (fresh []) =
     (Inr JNull,
      \<lparr>currentKeyIndex = 1, attempts = [0, 1], local = [''{'', ''{"court": '', ''"SC"}'']\<rparr>) \<and>
   analyzeJudgment parseJSON pool2 (streamed ''{"court": '' ''"SC"}'') alreadyAborted (fresh []) =
     (Inr JNull, \<lparr>currentKeyIndex = 0, attempts = [0], local = []\<rparr>)\<close>
  by code_simp

text \<open>
  C10, amended. The call is never cancelled, no attempt of it that was retried had
  delivered text, and its last attempt streams the response to the end. Whatever
  JSON value \<open>v\<close> the fence-stripped text of the response parses as, the call
  resolves with \<open>v\<close> itself: nothing checks its shape. The result is \<open>null\<close> exactly
  when \<open>v\<close> is the JSON value \<open>null\<close>.
\<close>

theorem analyzeJudgment_returns_any_json:
  assumes "quietBefore API_KEYS provider st k"
    and "answerAt API_KEYS provider st k = Inr response"
    and "failure response = None"
    and "\<And>n i. \<not> aborted abortSignal n i"
    and "JSON_parse (cleanResponse (responseText response)) = Some v"
  shows "fst (analyzeJudgment JSON_parse API_KEYS provider abortSignal st) = Inr v \<and>
         (fst (analyzeJudgment JSON_parse API_KEYS provider abortSignal st) = Inr JNull
            \<longleftrightarrow> v = JNull)"
  using analyzeJudgment_served[OF assms(1-4), of JSON_parse] assms(5)
  by (simp add: parseAnalysis_def)

text \<open>An array of numbers is returned as the analysis.\<close>

theorem analyzeJudgment_returns_any_json_witness:
  \<open>fst (analyzeJudgment parseJSON pool2 (streamed ''[1, '' ''2]'') None (fresh []))
     = Inr (JArray [JNumber 1, JNumber 2])\<close>
proof -
  let ?p = \<open>streamed ''[1, '' ''2]''\<close>
  let ?r = \<open>\<lparr>fragments = [Some ''[1, '', Some ''2]''], failure = None\<rparr>\<close>
  have 1: "quietBefore pool2 ?p (fresh []) 0"
    by (simp add: quietBefore_def fresh_def pool2_def)
  have 2: "answerAt pool2 ?p (fresh []) 0 = Inr ?r"
    by (simp add: answerAt_def streamed_def)
  have 3: "failure ?r = None" by simp
  have 4: "\<not> aborted None n i" for n i by (simp add: aborted_def)
  have 5: "parseJSON (cleanResponse (responseText ?r)) = Some (JArray [JNumber 1, JNumber 2])"
    by code_simp
  show ?thesis
    using analyzeJudgment_returns_any_json[where JSON_parse = parseJSON, OF 1 2 3 4 5] by simp
qed

text \<open>
  C10 as stated promises the parsed value, non-null, for every valid JSON value
  and every call. The text \<open>null\<close> is valid JSON, and the result is \<open>null\<close>, as after
  a parse failure. The array \<open>[1, 2]\<close> is valid JSON: streamed under the second key
  after a first stream that broke with a rate-limit error behind the fragment
  \<open>[\<close>, it is appended to that fragment and the result is \<open>null\<close>; streamed to a
  call whose signal is set, it is not read and the result is \<open>null\<close>.
\<close>

theorem analyzeJudgment_valid_json_is_null:
  "parseJSON (cleanResponse ''null'') = Some JNull \<and>
   fst (analyzeJudgment parseJSON pool2 (streamed ''nu'' ''ll'') None (fresh [])) = Inr JNull \<and>
   parseJSON (cleanResponse ''[1, 2]'') = Some (JArray [JNumber 1, JNumber 2]) \<and>
   analyzeJudgment parseJSON pool2 (brokenThen ''['' ''[1, '' ''2]'') None (fresh []) =
     (Inr JNull, \<lparr>currentKeyIndex = 1, attempts = [0, 1], local = [''['', ''[1, '', ''2]'']\<rparr>) \<and>
   analyzeJudgment parseJSON pool2 (streamed ''[1, '' ''2]'') alreadyAborted (fresh []) =
     (Inr JNull, \<lparr>currentKeyIndex = 0, attempts = [0], local = []\<rparr>)"
  by code_simp

section \<open>Properties of the semantic search\<close>

lemma aiSearchJudgments_resolves:
  "\<exists>v. fst (aiSearchJudgments JSON_parse API_KEYS provider st) = Inr v"
  by (simp add: aiSearchJudgments_def split: prod.splits sum.splits)

lemma aiSearchJudgments_run:
  assumes "rateLimitedBefore API_KEYS provider st k"
    and "final (fst (searchBody JSON_parse provider (length (attempts st) + k)
                   (clientAt API_KEYS st k) ())) \<or> k + 1 = length API_KEYS"
  shows "fst (aiSearchJudgments JSON_parse API_KEYS provider st) =
     (case answerAt API_KEYS provider st k of
        Inl err \<Rightarrow> Inr (JArray [])
      | Inr text \<Rightarrow> Inr (case JSON_parse (rawText text) of Some v \<Rightarrow> v | None \<Rightarrow> JArray []))"
proof -
  let ?body = "searchBody JSON_parse provider"
  let ?out = "case answerAt API_KEYS provider st k of
                 Inl err \<Rightarrow> (Inl err, local st)
               | Inr text \<Rightarrow> (Inr (case JSON_parse (rawText text) of Some v \<Rightarrow> v | None \<Rightarrow> JArray []), local st)"
  have run: "fst (withKeyRotation API_KEYS (request API_KEYS ?body) st) = fst ?out \<and>
         local (snd (withKeyRotation API_KEYS (request API_KEYS ?body) st)) = snd ?out \<and>
         currentKeyIndex (snd (withKeyRotation API_KEYS (request API_KEYS ?body) st)) =
           (currentKeyIndex st + k) mod length API_KEYS \<and>
         attempts (snd (withKeyRotation API_KEYS (request API_KEYS ?body) st)) =
           attempts st @ map (\<lambda>j. (currentKeyIndex st + j) mod length API_KEYS) [0..<Suc k]"
  proof (rule provider_run[OF assms(1), where process =
      "\<lambda>n text l. (Inr (case JSON_parse (rawText text) of Some v \<Rightarrow> v | None \<Rightarrow> JArray []), l)"])
    show "?body n ai l = (case provider n ai of Inl err \<Rightarrow> (Inl err, l)
        | Inr text \<Rightarrow> (Inr (case JSON_parse (rawText text) of Some v \<Rightarrow> v | None \<Rightarrow> JArray []), l))"
      for n ai l by (simp add: searchBody_def split: sum.splits)
    show "?out = ?out" by simp
    show "final (fst ?out) \<or> k + 1 = length API_KEYS"
      using assms(2) by (simp add: searchBody_def answerAt_def split: sum.splits)
  qed
  obtain r' st' where eq:
    "withKeyRotation API_KEYS (request API_KEYS ?body) st = (r', st')"
    by (cases "withKeyRotation API_KEYS (request API_KEYS ?body) st")
  with run have "r' = fst ?out" by simp
  then show ?thesis using eq by (simp add: aiSearchJudgments_def split: sum.splits)
qed

text \<open>
  C9, amended. The search never rejects. For a call that reaches attempt \<open>k\<close>: if
  the provider rejects that attempt with an error that ends the call (any error
  that is not retried, or any error under the last key), the result is the empty
  list; if the provider answers with a text that is not valid JSON, the result is
  the empty list; if the text is valid JSON, the result is the parsed value, of
  whatever shape.
\<close>

theorem aiSearchJudgments_degrades:
  assumes "rateLimitedBefore API_KEYS provider st k"
  shows "(\<exists>v. fst (aiSearchJudgments JSON_parse API_KEYS provider st) = Inr v) \<and>
     (\<forall>err. answerAt API_KEYS provider st k = Inl err \<and>
            (\<not> retryable err \<or> k + 1 = length API_KEYS)
        \<longrightarrow> fst (aiSearchJudgments JSON_parse API_KEYS provider st) = Inr (JArray [])) \<and>
     (\<forall>text. answerAt API_KEYS provider st k = Inr text \<and> JSON_parse (rawText text) = None
        \<longrightarrow> fst (aiSearchJudgments JSON_parse API_KEYS provider st) = Inr (JArray [])) \<and>
     (\<forall>text v. answerAt API_KEYS provider st k = Inr text \<and> JSON_parse (rawText text) = Some v
        \<longrightarrow> fst (aiSearchJudgments JSON_parse API_KEYS provider st) = Inr v)"
proof (intro conjI allI impI)
  show "\<exists>v. fst (aiSearchJudgments JSON_parse API_KEYS provider st) = Inr v"
    by (rule aiSearchJudgments_resolves)
next
  fix err
  assume a: "answerAt API_KEYS provider st k = Inl err \<and>
            (\<not> retryable err \<or> k + 1 = length API_KEYS)"
  then have "final (fst (searchBody JSON_parse provider (length (attempts st) + k)
                   (clientAt API_KEYS st k) ())) \<or> k + 1 = length API_KEYS"
    by (auto simp: searchBody_def answerAt_def final_def)
  from aiSearchJudgments_run[OF assms this] a
  show "fst (aiSearchJudgments JSON_parse API_KEYS provider st) = Inr (JArray [])" by simp
next
  fix t
  assume a: "answerAt API_KEYS provider st k = Inr t \<and> JSON_parse (rawText t) = None"
  then have "final (fst (searchBody JSON_parse provider (length (attempts st) + k)
                   (clientAt API_KEYS st k) ())) \<or> k + 1 = length API_KEYS"
    by (auto simp: searchBody_def answerAt_def final_def)
  from aiSearchJudgments_run[OF assms this] a
  show "fst (aiSearchJudgments JSON_parse API_KEYS provider st) = Inr (JArray [])" by simp
next
  fix t v
  assume a: "answerAt API_KEYS provider st k = Inr t \<and> JSON_parse (rawText t) = Some v"
  then have "final (fst (searchBody JSON_parse provider (length (attempts st) + k)
                   (clientAt API_KEYS st k) ())) \<or> k + 1 = length API_KEYS"
    by (auto simp: searchBody_def answerAt_def final_def)
  from aiSearchJudgments_run[OF assms this] a
  show "fst (aiSearchJudgments JSON_parse API_KEYS provider st) = Inr v" by simp
qed

text \<open>A prose answer, and a network error: the empty list.\<close>

theorem aiSearchJudgments_degrades_witness:
  "fst (aiSearchJudgments parseJSON pool2 (answered ''Sorry, nothing matches.'') (fresh ())) =
     Inr (JArray []) \<and>
   fst (aiSearchJudgments parseJSON pool2 (rejected networkError) (fresh ())) = Inr (JArray [])"
proof -
  have 1: "rateLimitedBefore pool2 (answered ''Sorry, nothing matches.'') (fresh ()) 0"
    by (simp add: rateLimitedBefore_def fresh_def pool2_def)
  have 2: "answerAt pool2 (answered ''Sorry, nothing matches.'') (fresh ()) 0 =
             Inr (Some ''Sorry, nothing matches.'')"
    by (simp add: answerAt_def answered_def)
  have 3: "parseJSON (rawText (Some ''Sorry, nothing matches.'')) = None"
    by code_simp
  have 4: "rateLimitedBefore pool2 (rejected networkError) (fresh ()) 0"
    by (simp add: rateLimitedBefore_def fresh_def pool2_def)
  have 5: "answerAt pool2 (rejected networkError) (fresh ()) 0 = Inl networkError"
    by (simp add: answerAt_def rejected_def)
  have 6: "\<not> retryable networkError"
    by (simp add: retryable_def is429Error_def networkError_def)
  show ?thesis
    using aiSearchJudgments_degrades[where JSON_parse = parseJSON, OF 1]
      aiSearchJudgments_degrades[where JSON_parse = parseJSON, OF 4] 2 3 5 6
    by blast
qed

text \<open>
  C9 as stated promises the empty list for every response that is not a JSON array
  of strings. An object is valid JSON and is returned as it is.
\<close>

theorem aiSearchJudgments_returns_non_array:
  \<open>parseJSON ''{"ids": ["10001-2023"]}'' = Some (JObject [(''ids'', JArray [JString ''10001-2023''])]) \<and>
   fst (aiSearchJudgments parseJSON pool2 (answered ''{"ids": ["10001-2023"]}'') (fresh ())) =
     Inr (JObject [(''ids'', JArray [JString ''10001-2023''])])\<close>
  by code_simp

end
